theory Spec2Isabelle
  imports Main "HOL-Library.AList"
begin

section \<open>JavaScript strings and the built-ins the parser calls\<close>

text \<open>
  A JavaScript string is a sequence of UTF-16 code units; \<^verbatim>\<open>charCodeAt\<close> reads one of
  them as a number. The model keeps a string as the list of its code units, so that
  \<^verbatim>\<open>html.charCodeAt(i) === 60\<close> reads \<open>html ! i = 60\<close>. The function \<open>js\<close> writes a
  literal: \<open>js ''<p>''\<close> is \<open>[60, 112, 62]\<close>.
\<close>

type_synonym jsstring = "nat list"

definition js :: "string \<Rightarrow> jsstring" where
  "js s = map of_char s"

text \<open>\<^verbatim>\<open>s.slice(a, b)\<close> and \<^verbatim>\<open>s.slice(a)\<close> for indices that are not negative (the parser
  passes no others): both ends are clamped to the length, and the result is empty when
  \<open>b \<le> a\<close>.\<close>

definition slice :: "jsstring \<Rightarrow> nat \<Rightarrow> nat \<Rightarrow> jsstring" where
  "slice s a b = drop a (take b s)"

definition sliceFrom :: "jsstring \<Rightarrow> nat \<Rightarrow> jsstring" where
  "sliceFrom s a = drop a s"

text \<open>\<^verbatim>\<open>s.indexOf(needle, k)\<close>: the first index at or after \<open>k\<close> where \<open>needle\<close> occurs;
  \<open>None\<close> stands for the result \<open>-1\<close>. Every needle of the parser is a non-empty
  string.\<close>

function indexOf :: "jsstring \<Rightarrow> jsstring \<Rightarrow> nat \<Rightarrow> nat option" where
  "indexOf s needle k =
     (if length s < k + length needle then None
      else if take (length needle) (drop k s) = needle then Some k
      else indexOf s needle (k + 1))"
  by pat_completeness auto
termination
  by (relation "measure (\<lambda>(s, needle, k). Suc (length s) - k)") auto

declare indexOf.simps [simp del]

text \<open>
  \<^verbatim>\<open>toLowerCase\<close> maps code units one by one. The table covers Basic Latin, the Latin-1
  Supplement and U+0130 (LATIN CAPITAL LETTER I WITH DOT ABOVE), whose lower case is the
  two code units U+0069 U+0307: the one code unit whose lower case has another length.
  Cased letters of other blocks are carried over as they are.
\<close>

definition lowerUnit :: "nat \<Rightarrow> jsstring" where
  "lowerUnit c =
     (if 65 \<le> c \<and> c \<le> 90 then [c + 32]
      else if (192 \<le> c \<and> c \<le> 214) \<or> (216 \<le> c \<and> c \<le> 222) then [c + 32]
      else if c = 304 then [105, 775]
      else [c])"

definition toLowerCase :: "jsstring \<Rightarrow> jsstring" where
  "toLowerCase s = concat (map lowerUnit s)"

text \<open>\<^verbatim>\<open>trim\<close> strips white space and line terminators at both ends; the same set is the
  class \<^verbatim>\<open>\s\<close> of a regular expression.\<close>

definition isJsSpace :: "nat \<Rightarrow> bool" where
  "isJsSpace c =
     (c \<in> set [9, 10, 11, 12, 13, 32, 160, 5760, 8232, 8233, 8239, 8287, 12288, 65279]
      \<or> (8192 \<le> c \<and> c \<le> 8202))"

definition trim :: "jsstring \<Rightarrow> jsstring" where
  "trim s = rev (dropWhile isJsSpace (rev (dropWhile isJsSpace s)))"

text \<open>The loop \<^verbatim>\<open>while (j < len && p(s.charCodeAt(j))) j++\<close>, which the source writes out
  at every scan.\<close>

function scanWhile :: "(nat \<Rightarrow> bool) \<Rightarrow> jsstring \<Rightarrow> nat \<Rightarrow> nat" where
  "scanWhile p s j = (if j < length s \<and> p (s ! j) then scanWhile p s (j + 1) else j)"
  by pat_completeness auto
termination
  by (relation "measure (\<lambda>(p, s, j). length s - j)") auto

declare scanWhile.simps [simp del]

definition isWhitespace :: "nat \<Rightarrow> bool" where
  "isWhitespace code = (code \<le> 32)"

definition isIdentifierChar :: "nat \<Rightarrow> bool" where
  "isIdentifierChar code =
     ((48 \<le> code \<and> code \<le> 57) \<or> (65 \<le> code \<and> code \<le> 90) \<or> (97 \<le> code \<and> code \<le> 122)
      \<or> code = 45 \<or> code = 95 \<or> code = 58)"

definition skipWhitespace :: "jsstring \<Rightarrow> nat \<Rightarrow> nat" where
  "skipWhitespace s j = scanWhile isWhitespace s j"

section \<open>The lookup tables\<close>

text \<open>
  The three tables are object literals, and the source reads them with \<^verbatim>\<open>TABLE[key]\<close>. Such
  a read finds the table's own properties and, for a key that is none of them, the
  properties every object inherits from \<^verbatim>\<open>Object.prototype\<close>. \<open>Object_prototype\<close> lists
  those with the text each value becomes when it is used as a string (a native function
  prints as \<^verbatim>\<open>function name() { [native code] }\<close>); every one of the values is truthy.
\<close>

definition VOID_ELEMENTS :: "jsstring list" where
  "VOID_ELEMENTS = map js [''area'', ''base'', ''br'', ''col'', ''embed'', ''hr'', ''img'',
     ''input'', ''link'', ''meta'', ''param'', ''source'', ''track'', ''wbr'']"

definition RAWTEXT_ELEMENTS :: "jsstring list" where
  "RAWTEXT_ELEMENTS = map js [''script'', ''style'', ''textarea'']"

definition ENTITY_MAP :: "(jsstring \<times> jsstring) list" where
  "ENTITY_MAP = [(js ''amp'', js ''&''), (js ''lt'', js ''<''), (js ''gt'', js ''>''),
     (js ''quot'', [34]), (js ''apos'', [39]), (js ''nbsp'', js '' '')]"

definition nativeFunction :: "string \<Rightarrow> jsstring" where
  "nativeFunction name = js (''function '' @ name @ ''() { [native code] }'')"

definition Object_prototype :: "(jsstring \<times> jsstring) list" where
  "Object_prototype =
     [(js ''constructor'', nativeFunction ''Object''),
      (js ''__defineGetter__'', nativeFunction ''__defineGetter__''),
      (js ''__defineSetter__'', nativeFunction ''__defineSetter__''),
      (js ''hasOwnProperty'', nativeFunction ''hasOwnProperty''),
      (js ''__lookupGetter__'', nativeFunction ''__lookupGetter__''),
      (js ''__lookupSetter__'', nativeFunction ''__lookupSetter__''),
      (js ''isPrototypeOf'', nativeFunction ''isPrototypeOf''),
      (js ''propertyIsEnumerable'', nativeFunction ''propertyIsEnumerable''),
      (js ''toString'', nativeFunction ''toString''),
      (js ''valueOf'', nativeFunction ''valueOf''),
      (js ''__proto__'', js ''[object Object]''),
      (js ''toLocaleString'', nativeFunction ''toLocaleString'')]"

text \<open>\<^verbatim>\<open>TABLE[key]\<close> used as a condition, for a table whose own values are all
  \<^verbatim>\<open>true\<close>.\<close>

definition truthyIn :: "jsstring list \<Rightarrow> jsstring \<Rightarrow> bool" where
  "truthyIn table key = (key \<in> set table \<or> key \<in> set (map fst Object_prototype))"

text \<open>\<^verbatim>\<open>ENTITY_MAP[body]\<close>: \<open>None\<close> is \<^verbatim>\<open>undefined\<close>.\<close>

definition entityLookup :: "jsstring \<Rightarrow> jsstring option" where
  "entityLookup body =
     (case map_of ENTITY_MAP body of
        Some decoded \<Rightarrow> Some decoded
      | None \<Rightarrow> map_of Object_prototype body)"

section \<open>Entity decoding\<close>

definition isHexDigit :: "nat \<Rightarrow> bool" where
  "isHexDigit c = ((48 \<le> c \<and> c \<le> 57) \<or> (65 \<le> c \<and> c \<le> 70) \<or> (97 \<le> c \<and> c \<le> 102))"

definition isAsciiLetter :: "nat \<Rightarrow> bool" where
  "isAsciiLetter c = ((65 \<le> c \<and> c \<le> 90) \<or> (97 \<le> c \<and> c \<le> 122))"

definition digitValue :: "nat \<Rightarrow> nat" where
  "digitValue c = (if c \<le> 57 then c - 48 else if c \<le> 70 then c - 55 else c - 87)"

text \<open>
  \<^verbatim>\<open>parseInt(s, radix)\<close> on a run of hexadecimal digits (the regular expression lets no
  other payload through) and radix 10 or 16: the value of the longest prefix of digits of
  that radix, \<open>None\<close> (\<^verbatim>\<open>NaN\<close>) when the prefix is empty. The value is the exact integer;
  JavaScript rounds it to a double, which differs from \<open>2 ^ 53\<close> on.
\<close>

definition parseInt :: "jsstring \<Rightarrow> nat \<Rightarrow> nat option" where
  "parseInt s radix =
     (let ds = takeWhile (\<lambda>c. isHexDigit c \<and> digitValue c < radix) s
      in if ds = [] then None
         else Some (foldl (\<lambda>acc c. acc * radix + digitValue c) 0 ds))"

text \<open>\<^verbatim>\<open>String.fromCharCode(num)\<close> keeps the low 16 bits of its argument.\<close>

definition fromCharCode :: "nat \<Rightarrow> jsstring" where
  "fromCharCode num = [num mod 65536]"

text \<open>
  One attempt of \<^verbatim>\<open>/&(#x?[0-9a-fA-F]+|[a-zA-Z]+);/\<close> right after an ampersand: the captured
  body and the text after the semicolon. Neither class holds the semicolon, so a match
  takes the whole run of its class.
\<close>

definition matchEntity :: "jsstring \<Rightarrow> (jsstring \<times> jsstring) option" where
  "matchEntity s =
     (if s \<noteq> [] \<and> hd s = 35 then
        (let t = tl s;
             hasX = (t \<noteq> [] \<and> hd t = 120);
             u = (if hasX then tl t else t);
             ds = takeWhile isHexDigit u;
             r = dropWhile isHexDigit u
         in if ds \<noteq> [] \<and> r \<noteq> [] \<and> hd r = 59
            then Some ((if hasX then [35, 120] else [35]) @ ds, tl r)
            else None)
      else
        (let ls = takeWhile isAsciiLetter s;
             r = dropWhile isAsciiLetter s
         in if ls \<noteq> [] \<and> r \<noteq> [] \<and> hd r = 59 then Some (ls, tl r) else None))"

text \<open>The callback of \<^verbatim>\<open>replace\<close>; the match is \<open>&\<close>, the body and \<open>;\<close>.\<close>

definition entityReplacement :: "jsstring \<Rightarrow> jsstring" where
  "entityReplacement body =
     (if body \<noteq> [] \<and> hd body = 35 then
        (let hex = (1 < length body \<and> (body ! 1 = 120 \<or> body ! 1 = 88));
             num = parseInt (sliceFrom body (if hex then 2 else 1)) (if hex then 16 else 10)
         in case num of
              Some n \<Rightarrow> fromCharCode n
            | None \<Rightarrow> [38] @ body @ [59])
      else
        (case entityLookup body of
           Some decoded \<Rightarrow> decoded
         | None \<Rightarrow> [38] @ body @ [59]))"

lemma matchEntity_shorter:
  "matchEntity s = Some (body, rest) \<Longrightarrow> length rest < length s"
proof -
  have drop_le: "length (tl (dropWhile p xs)) \<le> length xs" for p and xs :: "nat list"
    using length_dropWhile_le[of p xs] by simp
  assume m: "matchEntity s = Some (body, rest)"
  show ?thesis
  proof (cases "s \<noteq> [] \<and> hd s = 35")
    case True
    then obtain t where s: "s = 35 # t" by (cases s) auto
    let ?u = "if t \<noteq> [] \<and> hd t = 120 then tl t else t"
    from m s have "rest = tl (dropWhile isHexDigit ?u)"
      by (auto simp: matchEntity_def Let_def split: if_splits)
    moreover have "length ?u \<le> length t" by simp
    ultimately show ?thesis using s drop_le[of isHexDigit ?u] by simp
  next
    case False
    with m have r: "rest = tl (dropWhile isAsciiLetter s)" and ne: "takeWhile isAsciiLetter s \<noteq> []"
      by (auto simp: matchEntity_def Let_def split: if_splits)
    from ne have "length (dropWhile isAsciiLetter s) < length s"
      by (metis append_self_conv2 length_append length_greater_0_conv less_add_same_cancel2
          takeWhile_dropWhile_id)
    then show ?thesis using r by simp
  qed
qed

function replaceEntities :: "jsstring \<Rightarrow> jsstring" where
  "replaceEntities [] = []"
| "replaceEntities (c # cs) =
     (if c = 38 then
        (case matchEntity cs of
           Some (body, rest) \<Rightarrow> entityReplacement body @ replaceEntities rest
         | None \<Rightarrow> c # replaceEntities cs)
      else c # replaceEntities cs)"
  by pat_completeness auto
termination
  by (relation "measure length") (auto dest: matchEntity_shorter)

definition decodeEntities :: "jsstring \<Rightarrow> jsstring" where
  "decodeEntities text =
     (if indexOf text [38] 0 = None then text else replaceEntities text)"

section \<open>The node model\<close>

text \<open>
  The nodes of a tree are objects that refer to each other: a node holds its children and
  its parent, and the parser keeps a stack of open nodes while it appends to them. The
  model is an arena: a heap is the list of the nodes allocated so far, and a reference is
  an index into it. The three classes share the fields of \<^verbatim>\<open>NodeBase\<close>; \<open>tagName\<close> and
  \<open>attributes\<close> are read on elements only, \<open>data\<close> on text nodes only.
  An attribute object is a list of its own properties (key and value).
\<close>

datatype NodeType = Element | Text | Document

type_synonym attrs = "(jsstring \<times> jsstring) list"

record node =
  nodeType :: NodeType
  parent :: "nat option"
  children :: "nat list"
  tagName :: jsstring
  attributes :: attrs
  data :: jsstring

type_synonym heap = "node list"

definition newDocument :: node where
  "newDocument = \<lparr>nodeType = Document, parent = None, children = [], tagName = [],
     attributes = [], data = []\<rparr>"

definition newElement :: "jsstring \<Rightarrow> attrs \<Rightarrow> node" where
  "newElement name as = \<lparr>nodeType = Element, parent = None, children = [],
     tagName = toLowerCase name, attributes = as, data = []\<rparr>"

definition newTextNode :: "jsstring \<Rightarrow> node" where
  "newTextNode t = \<lparr>nodeType = Text, parent = None, children = [], tagName = [],
     attributes = [], data = t\<rparr>"

text \<open>\<^verbatim>\<open>new\<close>: the new object's reference is the next free index.\<close>

definition alloc :: "heap \<Rightarrow> node \<Rightarrow> heap \<times> nat" where
  "alloc h n = (h @ [n], length h)"

text \<open>\<^verbatim>\<open>appendChild\<close> of \<^verbatim>\<open>Document\<close> and of \<^verbatim>\<open>Element\<close> (the two bodies are the same).\<close>

definition appendChild :: "heap \<Rightarrow> nat \<Rightarrow> nat \<Rightarrow> heap" where
  "appendChild h p c =
     (let h1 = h[c := (h ! c)\<lparr>parent := Some p\<rparr>]
      in h1[p := (h1 ! p)\<lparr>children := children (h1 ! p) @ [c]\<rparr>])"

text \<open>\<^verbatim>\<open>obj[key] = value\<close> on a plain object: the key \<^verbatim>\<open>__proto__\<close> is the inherited
  accessor, and storing a string through it changes nothing.\<close>

definition setProperty :: "attrs \<Rightarrow> jsstring \<Rightarrow> jsstring \<Rightarrow> attrs" where
  "setProperty obj key v = (if key = js ''__proto__'' then obj else AList.update key v obj)"

definition hasAttribute :: "node \<Rightarrow> jsstring \<Rightarrow> bool" where
  "hasAttribute el name = (map_of (attributes el) (toLowerCase name) \<noteq> None)"

definition getAttribute :: "node \<Rightarrow> jsstring \<Rightarrow> jsstring option" where
  "getAttribute el name = map_of (attributes el) (toLowerCase name)"

section \<open>The tokenizer and tree builder\<close>

text \<open>
  The state of the loop of \<^verbatim>\<open>parse\<close>: the heap (the document is the node at index 0), the
  stack of open nodes in the order of the array (the top is the last entry) and the cursor
  \<^verbatim>\<open>i\<close>. One pass of the loop continues with a new state, leaves the loop
  (\<^verbatim>\<open>break\<close>) or throws: \<^verbatim>\<open>stack[stack.length - 1]\<close> of an empty stack is
  \<^verbatim>\<open>undefined\<close>, and calling \<^verbatim>\<open>appendChild\<close> on it is a \<^verbatim>\<open>TypeError\<close>.
\<close>

record pstate =
  nodes :: heap
  stack :: "nat list"
  cursor :: nat

datatype error = TypeError

datatype outcome = Continue pstate | Break pstate | Throw error

text \<open>The scan of an end tag: \<^verbatim>\<open>for (let s = stack.length - 1; s > 0; s--)\<close>.\<close>

function closeLoop :: "heap \<Rightarrow> nat list \<Rightarrow> jsstring \<Rightarrow> nat \<Rightarrow> nat list" where
  "closeLoop h stk name s =
     (if 0 < s then
        (let n = stk ! s
         in if nodeType (h ! n) = Element \<and> tagName (h ! n) = name then take s stk
            else closeLoop h stk name (s - 1))
      else stk)"
  by pat_completeness auto
termination
  by (relation "measure (\<lambda>(h, stk, name, s). s)") auto

declare closeLoop.simps [simp del]

text \<open>The value of an attribute, from the index after its name and the white space
  behind it: the raw value and the index after it.\<close>

definition readAttributeValue :: "jsstring \<Rightarrow> nat \<Rightarrow> jsstring \<times> nat" where
  "readAttributeValue html j =
     (if j < length html \<and> html ! j = 61 then
        (let j3 = skipWhitespace html (j + 1)
         in if j3 < length html \<and> (html ! j3 = 34 \<or> html ! j3 = 39) then
              (let quote = html ! j3;
                   valueStart = j3 + 1;
                   j4 = scanWhile (\<lambda>c. c \<noteq> quote) html valueStart
               in (slice html valueStart j4,
                   if j4 < length html \<and> html ! j4 = quote then j4 + 1 else j4))
            else
              (let j4 = scanWhile (\<lambda>c. \<not> (isWhitespace c \<or> c = 47 \<or> c = 62)) html j3
               in (slice html j3 j4, j4)))
      else ([], j))"

text \<open>One attribute, from the first code unit of its name: the lower-cased name, the raw
  value and the index after it.\<close>

definition readAttribute :: "jsstring \<Rightarrow> nat \<Rightarrow> jsstring \<times> jsstring \<times> nat" where
  "readAttribute html nameStart =
     (let j1 = scanWhile (\<lambda>c. \<not> (isWhitespace c \<or> c = 61 \<or> c = 47 \<or> c = 62)) html nameStart;
          name = toLowerCase (slice html nameStart j1);
          j2 = skipWhitespace html j1
      in (name, readAttributeValue html j2))"

lemma scanWhile_ge: "j \<le> scanWhile p s j"
proof (induction p s j rule: scanWhile.induct)
  case (1 p s j)
  then show ?case by (auto simp add: scanWhile.simps[of p s j])
qed

lemma scanWhile_gt: "j < length s \<Longrightarrow> p (s ! j) \<Longrightarrow> j < scanWhile p s j"
  using scanWhile_ge[of "j + 1" p s] by (auto simp add: scanWhile.simps[of p s j])

lemma scanWhile_stop: "\<not> (j < length s \<and> p (s ! j)) \<Longrightarrow> scanWhile p s j = j"
  by (auto simp add: scanWhile.simps[of p s j])

lemma skipWhitespace_ge: "j \<le> skipWhitespace s j"
  by (simp add: skipWhitespace_def scanWhile_ge)

lemma readAttributeValue_ge: "j \<le> snd (readAttributeValue html j)"
proof -
  let ?j3 = "skipWhitespace html (j + 1)"
  have a: "j + 1 \<le> ?j3" by (rule skipWhitespace_ge)
  have b: "?j3 + 1 \<le> scanWhile (\<lambda>c. c \<noteq> html ! ?j3) html (?j3 + 1)" by (rule scanWhile_ge)
  have c: "?j3 \<le> scanWhile (\<lambda>c. \<not> (isWhitespace c \<or> c = 47 \<or> c = 62)) html ?j3"
    by (rule scanWhile_ge)
  show ?thesis using a b c by (simp add: readAttributeValue_def Let_def)
qed

lemma readAttributeValue_gt:
  assumes "j < length html" "html ! j = 61"
  shows "j < snd (readAttributeValue html j)"
proof -
  let ?j3 = "skipWhitespace html (j + 1)"
  have a: "j + 1 \<le> ?j3" by (rule skipWhitespace_ge)
  have b: "?j3 + 1 \<le> scanWhile (\<lambda>c. c \<noteq> html ! ?j3) html (?j3 + 1)" by (rule scanWhile_ge)
  have c: "?j3 \<le> scanWhile (\<lambda>c. \<not> (isWhitespace c \<or> c = 47 \<or> c = 62)) html ?j3"
    by (rule scanWhile_ge)
  show ?thesis using assms a b c by (simp add: readAttributeValue_def Let_def)
qed

lemma readAttribute_advances:
  assumes "j < length html" "\<not> isWhitespace (html ! j)" "html ! j \<noteq> 47" "html ! j \<noteq> 62"
  shows "j < snd (snd (readAttribute html j))"
proof -
  let ?p = "\<lambda>c. \<not> (isWhitespace c \<or> c = 61 \<or> c = 47 \<or> c = 62)"
  let ?j1 = "scanWhile ?p html j"
  let ?j2 = "skipWhitespace html ?j1"
  have r: "snd (snd (readAttribute html j)) = snd (readAttributeValue html ?j2)"
    by (simp add: readAttribute_def Let_def)
  have j1: "j \<le> ?j1" by (rule scanWhile_ge)
  have j2: "?j1 \<le> ?j2" by (rule skipWhitespace_ge)
  show ?thesis
  proof (cases "html ! j = 61")
    case False
    with assms have "j < ?j1" by (intro scanWhile_gt) auto
    then show ?thesis
      using j2 readAttributeValue_ge[of ?j2 html] unfolding r by linarith
  next
    case True
    with assms(1) have "?j1 = j" by (intro scanWhile_stop) simp
    moreover from assms(1,2) have "skipWhitespace html j = j"
      unfolding skipWhitespace_def by (intro scanWhile_stop) simp
    ultimately have e: "?j2 = j" by simp
    show ?thesis
      unfolding r e using readAttributeValue_gt[OF assms(1) True] .
  qed
qed

text \<open>The loop over the attributes of a start tag, from the index after the tag name: the
  index after the tag, the attributes and the self-closing flag.\<close>

function attributeLoop :: "jsstring \<Rightarrow> nat \<Rightarrow> attrs \<Rightarrow> bool \<Rightarrow> nat \<times> attrs \<times> bool" where
  "attributeLoop html j as selfClosing =
     (if j < length html then
        (if isWhitespace (html ! j) then attributeLoop html (j + 1) as selfClosing
         else if html ! j = 47 then
           (if skipWhitespace html (j + 1) < length html
               \<and> html ! (skipWhitespace html (j + 1)) = 62
            then (skipWhitespace html (j + 1) + 1, as, True)
            else attributeLoop html (skipWhitespace html (j + 1)) as True)
         else if html ! j = 62 then (j + 1, as, selfClosing)
         else
           (case readAttribute html j of
              (name, v, j') \<Rightarrow>
                attributeLoop html j'
                  (if name \<noteq> [] then setProperty as name (decodeEntities v) else as)
                  selfClosing))
      else (j, as, selfClosing))"
  by pat_completeness auto
termination
proof (relation "measure (\<lambda>(html, j, as, selfClosing). length html - j)", goal_cases)
  case 1
  show ?case by simp
next
  case (2 html j as selfClosing)
  then show ?case by simp
next
  case (3 html j as selfClosing)
  then show ?case using skipWhitespace_ge[of "j + 1" html] by simp
next
  case (4 html j as selfClosing x xa y ya)
  then have "snd (snd (readAttribute html j)) = ya" by (metis snd_conv)
  with 4 show ?case using readAttribute_advances[of j html] by simp
qed

declare attributeLoop.simps [simp del]

text \<open>\<^verbatim>\<open>parent.appendChild(new TextNode(text))\<close>.\<close>

definition appendText :: "heap \<Rightarrow> nat \<Rightarrow> jsstring \<Rightarrow> heap" where
  "appendText h p t = (case alloc h (newTextNode t) of (h1, n) \<Rightarrow> appendChild h1 p n)"

text \<open>The branches of the loop body, in the order of the source. Each takes the state at a
  cursor \<open>i < length html\<close>.\<close>

definition commentStep :: "jsstring \<Rightarrow> pstate \<Rightarrow> outcome" where
  "commentStep html st =
     (case indexOf html (js ''-->'') (cursor st + 4) of
        None \<Rightarrow> Continue (st\<lparr>cursor := length html\<rparr>)
      | Some e \<Rightarrow> Continue (st\<lparr>cursor := e + 3\<rparr>))"

definition declarationStep :: "jsstring \<Rightarrow> pstate \<Rightarrow> outcome" where
  "declarationStep html st =
     (case indexOf html (js ''>'') (cursor st + 2) of
        None \<Rightarrow> Continue (st\<lparr>cursor := length html\<rparr>)
      | Some e \<Rightarrow> Continue (st\<lparr>cursor := e + 1\<rparr>))"

definition endTagStep :: "jsstring \<Rightarrow> pstate \<Rightarrow> outcome" where
  "endTagStep html st =
     (case indexOf html (js ''>'') (cursor st + 2) of
        None \<Rightarrow> Break st
      | Some e \<Rightarrow>
          (let name = toLowerCase (trim (slice html (cursor st + 2) e))
           in Continue (st\<lparr>stack :=
                  (if name \<noteq> [] then closeLoop (nodes st) (stack st) name (length (stack st) - 1)
                   else stack st),
                cursor := e + 1\<rparr>)))"

text \<open>The raw-text branch of a start tag: \<open>element\<close> is the new element, \<open>j\<close> the index
  after its tag.\<close>

definition rawTextStep :: "jsstring \<Rightarrow> jsstring \<Rightarrow> pstate \<Rightarrow> heap \<Rightarrow> nat \<Rightarrow> jsstring \<Rightarrow> nat \<Rightarrow> outcome" where
  "rawTextStep html lowerHtml st h element name j =
     (let closeTag = js ''</'' @ name @ js ''>''
      in case indexOf lowerHtml closeTag j of
           None \<Rightarrow>
             (let rawText = sliceFrom html j
              in Continue (st\<lparr>nodes := (if rawText \<noteq> [] then appendText h element rawText else h),
                              cursor := length html\<rparr>))
         | Some closeIndex \<Rightarrow>
             (let rawText = slice html j closeIndex
              in Continue (st\<lparr>nodes := (if rawText \<noteq> [] then appendText h element rawText else h),
                              cursor := closeIndex + length closeTag\<rparr>)))"

definition startTagStep :: "jsstring \<Rightarrow> jsstring \<Rightarrow> pstate \<Rightarrow> outcome" where
  "startTagStep html lowerHtml st =
     (let i = cursor st;
          j0 = scanWhile (\<lambda>c. \<not> isWhitespace c \<and> c \<noteq> 47 \<and> c \<noteq> 62) html (i + 1);
          rawTagName = slice html (i + 1) j0
      in if rawTagName = [] then Continue (st\<lparr>cursor := i + 1\<rparr>)
         else
           (let name = toLowerCase rawTagName
            in case attributeLoop html j0 [] False of
                 (j, as, selfClosing) \<Rightarrow>
                   (case alloc (nodes st) (newElement name as) of
                      (h1, element) \<Rightarrow>
                        if stack st = [] then Throw TypeError
                        else
                          (let h2 = appendChild h1 (last (stack st)) element
                           in if \<not> selfClosing \<and> \<not> truthyIn VOID_ELEMENTS name then
                                (if truthyIn RAWTEXT_ELEMENTS name
                                 then rawTextStep html lowerHtml st h2 element name j
                                 else Continue (st\<lparr>nodes := h2, stack := stack st @ [element],
                                                  cursor := j\<rparr>))
                              else Continue (st\<lparr>nodes := h2, cursor := j\<rparr>)))))"

definition textStep :: "jsstring \<Rightarrow> pstate \<Rightarrow> outcome" where
  "textStep html st =
     (let i = cursor st;
          e = (case indexOf html (js ''<'') i of None \<Rightarrow> length html | Some n \<Rightarrow> n);
          rawText = slice html i e
      in if rawText \<noteq> [] \<and> decodeEntities rawText \<noteq> [] then
           (if stack st = [] then Throw TypeError
            else Continue (st\<lparr>nodes := appendText (nodes st) (last (stack st)) (decodeEntities rawText),
                             cursor := e\<rparr>))
         else Continue (st\<lparr>cursor := e\<rparr>))"

text \<open>One pass of \<^verbatim>\<open>while (i < len)\<close>.\<close>

definition parseStep :: "jsstring \<Rightarrow> jsstring \<Rightarrow> pstate \<Rightarrow> outcome" where
  "parseStep html lowerHtml st =
     (let i = cursor st; len = length html
      in if html ! i = 60 then
           (if i + 3 < len \<and> slice html i (i + 4) = js ''<!--'' then commentStep html st
            else if i + 1 < len \<and> html ! (i + 1) = 33 then declarationStep html st
            else if i + 1 < len \<and> html ! (i + 1) = 47 then endTagStep html st
            else startTagStep html lowerHtml st)
         else textStep html st)"

section \<open>Every pass of the loop moves the cursor forward\<close>

lemma indexOf_ge: "indexOf s needle k = Some e \<Longrightarrow> k \<le> e"
proof (induction s needle k rule: indexOf.induct)
  case (1 s needle k)
  then show ?case
    by (auto simp add: indexOf.simps[of s needle k] split: if_splits)
qed

lemma indexOf_found:
  "indexOf s needle k = Some e \<Longrightarrow> take (length needle) (drop e s) = needle \<and> e + length needle \<le> length s"
proof (induction s needle k rule: indexOf.induct)
  case (1 s needle k)
  then show ?case
    by (auto simp add: indexOf.simps[of s needle k] split: if_splits)
qed

lemma indexOf_unit: "indexOf s [c] k = Some e \<Longrightarrow> e < length s \<and> s ! e = c"
proof -
  assume "indexOf s [c] k = Some e"
  from indexOf_found[OF this] have t: "take 1 (drop e s) = [c]" and l: "e < length s" by auto
  from t have "hd (drop e s) = c" by (cases "drop e s") auto
  with l have "s ! e = c" by (simp add: hd_drop_conv_nth)
  with l show ?thesis by simp
qed

lemma attributeLoop_ge: "attributeLoop html j as sc = (j', as', sc') \<Longrightarrow> j \<le> j'"
proof (induction html j as sc rule: attributeLoop.induct)
  case (1 html j as selfClosing)
  show ?case
  proof (cases "j < length html")
    case False
    with 1(4) show ?thesis by (simp add: attributeLoop.simps[of html j])
  next
    case len: True
    show ?thesis
    proof (cases "isWhitespace (html ! j)")
      case True
      with len 1(4) have "attributeLoop html (j + 1) as selfClosing = (j', as', sc')"
        by (simp add: attributeLoop.simps[of html j])
      from 1(1)[OF len True this] show ?thesis by simp
    next
      case ws: False
      show ?thesis
      proof (cases "html ! j = 47")
        case True
        let ?k = "skipWhitespace html (j + 1)"
        have k: "j + 1 \<le> ?k" by (rule skipWhitespace_ge)
        show ?thesis
        proof (cases "?k < length html \<and> html ! ?k = 62")
          case True
          with len ws \<open>html ! j = 47\<close> 1(4) k show ?thesis
            by (simp add: attributeLoop.simps[of html j])
        next
          case False
          with len ws \<open>html ! j = 47\<close> 1(4) have "attributeLoop html ?k as True = (j', as', sc')"
            by (auto simp add: attributeLoop.simps[of html j])
          from 1(2)[OF len ws \<open>html ! j = 47\<close> False this] k show ?thesis by simp
        qed
      next
        case sl: False
        show ?thesis
        proof (cases "html ! j = 62")
          case True
          with len ws sl 1(4) show ?thesis by (simp add: attributeLoop.simps[of html j])
        next
          case gt: False
          obtain name v k where r: "readAttribute html j = (name, v, k)" by (cases "readAttribute html j") auto
          have "j < k" using readAttribute_advances[OF len ws sl gt] r by simp
          moreover from len ws sl gt r 1(4) have
            "attributeLoop html k (if name \<noteq> [] then setProperty as name (decodeEntities v) else as) selfClosing = (j', as', sc')"
            by (simp add: attributeLoop.simps[of html j])
          from 1(3)[OF len ws sl gt r[symmetric] refl this] have "k \<le> j'" .
          ultimately show ?thesis by simp
        qed
      qed
    qed
  qed
qed

lemma commentStep_advances:
  "cursor st < length html \<Longrightarrow> commentStep html st = Continue st' \<Longrightarrow> cursor st < cursor st'"
  by (auto simp: commentStep_def split: option.splits dest: indexOf_ge)

lemma declarationStep_advances:
  "cursor st < length html \<Longrightarrow> declarationStep html st = Continue st' \<Longrightarrow> cursor st < cursor st'"
  by (auto simp: declarationStep_def split: option.splits dest: indexOf_ge)

lemma endTagStep_advances:
  "endTagStep html st = Continue st' \<Longrightarrow> cursor st < cursor st'"
  by (auto simp: endTagStep_def Let_def split: option.splits dest: indexOf_ge)

lemma rawTextStep_advances:
  "cursor st < length html \<Longrightarrow> cursor st < j
     \<Longrightarrow> rawTextStep html lowerHtml st h element name j = Continue st'
     \<Longrightarrow> cursor st < cursor st'"
  by (auto simp: rawTextStep_def Let_def split: option.splits dest: indexOf_ge)

lemma startTagStep_advances:
  assumes "cursor st < length html" "startTagStep html lowerHtml st = Continue st'"
  shows "cursor st < cursor st'"
proof -
  let ?j0 = "scanWhile (\<lambda>c. \<not> isWhitespace c \<and> c \<noteq> 47 \<and> c \<noteq> 62) html (cursor st + 1)"
  have j0: "cursor st + 1 \<le> ?j0" by (rule scanWhile_ge)
  obtain j as sc where a: "attributeLoop html ?j0 [] False = (j, as, sc)"
    by (cases "attributeLoop html ?j0 [] False") auto
  from attributeLoop_ge[OF a] j0 have j: "cursor st < j" by simp
  show ?thesis
  proof (cases "slice html (cursor st + 1) ?j0 = []")
    case True
    with assms(2) show ?thesis by (auto simp: startTagStep_def Let_def)
  next
    case False
    with assms(2) a j assms(1) show ?thesis
      by (auto simp: startTagStep_def Let_def alloc_def split: if_splits
          dest: rawTextStep_advances)
  qed
qed

lemma textStep_advances:
  assumes "cursor st < length html" "html ! cursor st \<noteq> 60" "textStep html st = Continue st'"
  shows "cursor st < cursor st'"
proof -
  let ?e = "case indexOf html (js ''<'') (cursor st) of None \<Rightarrow> length html | Some n \<Rightarrow> n"
  have "cursor st < ?e"
  proof (cases "indexOf html (js ''<'') (cursor st)")
    case None
    with assms(1) show ?thesis by simp
  next
    case (Some n)
    then have i: "indexOf html [60] (cursor st) = Some n" by (simp add: js_def)
    from indexOf_ge[OF i] indexOf_unit[OF i] assms(2) have "cursor st < n"
      by (cases "n = cursor st") auto
    with Some show ?thesis by simp
  qed
  moreover from assms(3) have "cursor st' = ?e"
    by (auto simp: textStep_def Let_def split: if_splits)
  ultimately show ?thesis by simp
qed

lemma parseStep_advances:
  assumes "cursor st < length html" "parseStep html lowerHtml st = Continue st'"
  shows "cursor st < cursor st'"
proof -
  from assms(2) consider
      "commentStep html st = Continue st'"
    | "declarationStep html st = Continue st'"
    | "endTagStep html st = Continue st'"
    | "startTagStep html lowerHtml st = Continue st'"
    | "html ! cursor st \<noteq> 60" "textStep html st = Continue st'"
    by (auto simp: parseStep_def Let_def split: if_splits)
  then show ?thesis
  proof cases
    case 1
    with assms(1) show ?thesis by (rule commentStep_advances)
  next
    case 2
    with assms(1) show ?thesis by (rule declarationStep_advances)
  next
    case 3
    then show ?thesis by (rule endTagStep_advances)
  next
    case 4
    with assms(1) show ?thesis by (rule startTagStep_advances)
  next
    case 5
    with assms(1) show ?thesis by (rule textStep_advances)
  qed
qed

text \<open>The loop of \<^verbatim>\<open>parse\<close>, and \<^verbatim>\<open>parse\<close> itself: the result is the heap, whose node 0
  is the document that the source returns.\<close>

function parseLoop :: "jsstring \<Rightarrow> jsstring \<Rightarrow> pstate \<Rightarrow> error + pstate" where
  "parseLoop html lowerHtml st =
     (if cursor st < length html then
        (case parseStep html lowerHtml st of
           Continue st' \<Rightarrow> parseLoop html lowerHtml st'
         | Break st' \<Rightarrow> Inr st'
         | Throw e \<Rightarrow> Inl e)
      else Inr st)"
  by pat_completeness auto
termination
proof (relation "measure (\<lambda>(html, lowerHtml, st). length html - cursor st)", goal_cases)
  case 1
  show ?case by simp
next
  case (2 html lowerHtml st st')
  then show ?case using parseStep_advances[of st html lowerHtml st'] by simp
qed

declare parseLoop.simps [simp del]

definition initialState :: pstate where
  "initialState = \<lparr>nodes = [newDocument], stack = [0], cursor = 0\<rparr>"

definition parse :: "jsstring \<Rightarrow> error + heap" where
  "parse html =
     (case parseLoop html (toLowerCase html) initialState of
        Inl e \<Rightarrow> Inl e
      | Inr st \<Rightarrow> Inr (nodes st))"

section \<open>What holds in every state of the loop\<close>

text \<open>
  \<open>reachable html st\<close>: the loop of \<^verbatim>\<open>parse\<close> on \<open>html\<close> comes to the state \<open>st\<close> at the head
  of a pass. In every such state the stack is not empty and holds references to allocated
  nodes, none of which the void table answers for; the node 0 is the document; an element
  has a non-empty lower-case tag name; and a node whose tag name the void table answers
  for has no children.
\<close>

definition nodeOk :: "node \<Rightarrow> bool" where
  "nodeOk n =
     ((nodeType n = Element \<longrightarrow> tagName n \<noteq> [] \<and> toLowerCase (tagName n) = tagName n)
      \<and> (truthyIn VOID_ELEMENTS (tagName n) \<longrightarrow> children n = []))"

definition heapOk :: "heap \<Rightarrow> bool" where
  "heapOk h = (h \<noteq> [] \<and> nodeType (h ! 0) = Document \<and> (\<forall>a<length h. nodeOk (h ! a)))"

definition stackOk :: "pstate \<Rightarrow> bool" where
  "stackOk st =
     (stack st \<noteq> []
      \<and> (\<forall>a\<in>set (stack st). a < length (nodes st)
            \<and> \<not> truthyIn VOID_ELEMENTS (tagName (nodes st ! a))))"

definition stateOk :: "pstate \<Rightarrow> bool" where
  "stateOk st = (stackOk st \<and> heapOk (nodes st))"

inductive reachable :: "jsstring \<Rightarrow> pstate \<Rightarrow> bool" for html where
  start: "reachable html initialState"
| step: "reachable html st \<Longrightarrow> cursor st < length html
          \<Longrightarrow> parseStep html (toLowerCase html) st = Continue st' \<Longrightarrow> reachable html st'"

lemma lowerUnit_idem: "concat (map lowerUnit (lowerUnit c)) = lowerUnit c"
  by (simp add: lowerUnit_def)

lemma toLowerCase_idem: "toLowerCase (toLowerCase s) = toLowerCase s"
  by (induction s) (simp_all add: toLowerCase_def lowerUnit_idem)

lemma toLowerCase_Nil_iff: "toLowerCase s = [] \<longleftrightarrow> s = []"
  by (cases s) (auto simp: toLowerCase_def lowerUnit_def)

lemma appendChild_new_length:
  "length (appendChild (h @ [n]) p (length h)) = Suc (length h)"
  by (simp add: appendChild_def Let_def)

lemma appendChild_new_nth:
  assumes "p < length h" "a \<le> length h"
  shows "appendChild (h @ [n]) p (length h) ! a =
     (if a = p then (h ! p)\<lparr>children := children (h ! p) @ [length h]\<rparr>
      else if a = length h then n\<lparr>parent := Some p\<rparr>
      else h ! a)"
  using assms by (auto simp: appendChild_def Let_def nth_list_update nth_append)

lemma appendChild_new_tagName:
  assumes "p < length h" "a < length h"
  shows "tagName (appendChild (h @ [n]) p (length h) ! a) = tagName (h ! a)"
  using assms by (simp add: appendChild_new_nth)

lemma appendChild_new_heapOk:
  assumes "heapOk h" "p < length h" "\<not> truthyIn VOID_ELEMENTS (tagName (h ! p))" "nodeOk n"
  shows "heapOk (appendChild (h @ [n]) p (length h))"
proof -
  let ?h = "appendChild (h @ [n]) p (length h)"
  have len: "length ?h = Suc (length h)" by (rule appendChild_new_length)
  have "nodeOk (?h ! a)" if "a < length ?h" for a
  proof -
    from that len have a: "a \<le> length h" by simp
    from assms(1) have old: "\<And>b. b < length h \<Longrightarrow> nodeOk (h ! b)" by (simp add: heapOk_def)
    show ?thesis
    proof (cases "a = p")
      case True
      with old[OF assms(2)] assms(2,3) a show ?thesis
        by (simp add: appendChild_new_nth nodeOk_def)
    next
      case False
      show ?thesis
      proof (cases "a = length h")
        case True
        with False assms(2,4) show ?thesis by (simp add: appendChild_new_nth nodeOk_def)
      next
        case n: False
        with a have "a < length h" by simp
        with False n assms(2) old[of a] show ?thesis by (simp add: appendChild_new_nth)
      qed
    qed
  qed
  moreover from assms(1) have "0 < length h" by (simp add: heapOk_def)
  with assms(1,2) have "nodeType (?h ! 0) = Document"
    by (simp add: appendChild_new_nth heapOk_def)
  ultimately show ?thesis using len by (auto simp: heapOk_def)
qed

lemma newElement_nodeOk:
  "name \<noteq> [] \<Longrightarrow> nodeOk (newElement (toLowerCase name) as)"
  by (simp add: nodeOk_def newElement_def toLowerCase_idem toLowerCase_Nil_iff)

lemma newTextNode_nodeOk: "nodeOk (newTextNode t)"
  by (simp add: nodeOk_def newTextNode_def truthyIn_def VOID_ELEMENTS_def Object_prototype_def
      js_def nativeFunction_def)

lemma appendText_heapOk:
  assumes "heapOk h" "p < length h" "\<not> truthyIn VOID_ELEMENTS (tagName (h ! p))"
  shows "heapOk (appendText h p t)"
  using appendChild_new_heapOk[OF assms newTextNode_nodeOk]
  by (simp add: appendText_def alloc_def)

lemma appendText_length: "length (appendText h p t) = Suc (length h)"
  by (simp add: appendText_def alloc_def appendChild_new_length)

lemma appendText_tagName:
  "p < length h \<Longrightarrow> a < length h \<Longrightarrow> tagName (appendText h p t ! a) = tagName (h ! a)"
  by (simp add: appendText_def alloc_def appendChild_new_tagName)

lemma closeLoop_cases:
  "closeLoop h stk name s = stk \<or> (\<exists>k. 0 < k \<and> k \<le> s \<and> closeLoop h stk name s = take k stk)"
proof (induction h stk name s rule: closeLoop.induct)
  case (1 h stk name s)
  show ?case
  proof (cases "0 < s")
    case False
    then have "s = 0" by simp
    then show ?thesis by (simp add: closeLoop.simps[of h stk name 0])
  next
    case True
    show ?thesis
    proof (cases "nodeType (h ! (stk ! s)) = Element \<and> tagName (h ! (stk ! s)) = name")
      case m: True
      with True have "closeLoop h stk name s = take s stk"
        by (simp add: closeLoop.simps[of h stk name s])
      with True show ?thesis by auto
    next
      case m: False
      with True have e: "closeLoop h stk name s = closeLoop h stk name (s - 1)"
        by (auto simp add: closeLoop.simps[of h stk name s])
      from 1[OF True refl m] show ?thesis unfolding e by (auto intro: le_trans)
    qed
  qed
qed

lemma closeLoop_stackOk:
  assumes "stackOk st"
  shows "stackOk (st\<lparr>stack := closeLoop (nodes st) (stack st) name s, cursor := c\<rparr>)"
proof -
  from closeLoop_cases[of "nodes st" "stack st" name s] show ?thesis
  proof
    assume "closeLoop (nodes st) (stack st) name s = stack st"
    with assms show ?thesis by (simp add: stackOk_def)
  next
    assume "\<exists>k. 0 < k \<and> k \<le> s \<and> closeLoop (nodes st) (stack st) name s = take k (stack st)"
    then obtain k where k: "0 < k" "closeLoop (nodes st) (stack st) name s = take k (stack st)"
      by auto
    from assms k(1) have "take k (stack st) \<noteq> []" by (simp add: stackOk_def)
    moreover have "set (take k (stack st)) \<subseteq> set (stack st)" by (rule set_take_subset)
    ultimately show ?thesis using assms k(2) by (auto simp: stackOk_def)
  qed
qed

lemma commentStep_ok:
  "stateOk st \<Longrightarrow> commentStep html st = Continue st' \<Longrightarrow> stateOk st'"
  by (auto simp: commentStep_def stateOk_def stackOk_def split: option.splits)

lemma declarationStep_ok:
  "stateOk st \<Longrightarrow> declarationStep html st = Continue st' \<Longrightarrow> stateOk st'"
  by (auto simp: declarationStep_def stateOk_def stackOk_def split: option.splits)

lemma endTagStep_ok:
  assumes "stateOk st" "endTagStep html st = Continue st'"
  shows "stateOk st'"
proof -
  from assms(2) obtain e where e: "indexOf html (js ''>'') (cursor st + 2) = Some e"
    by (auto simp: endTagStep_def split: option.splits)
  let ?name = "toLowerCase (trim (slice html (cursor st + 2) e))"
  show ?thesis
  proof (cases "?name = []")
    case True
    with assms e show ?thesis
      by (auto simp: endTagStep_def Let_def stateOk_def stackOk_def)
  next
    case False
    with assms(2) e have
      "st' = st\<lparr>stack := closeLoop (nodes st) (stack st) ?name (length (stack st) - 1), cursor := e + 1\<rparr>"
      by (auto simp: endTagStep_def Let_def)
    with assms(1) closeLoop_stackOk[where st=st and name="?name" and s="length (stack st) - 1" and c="e + 1"] show ?thesis
      by (simp add: stateOk_def)
  qed
qed

lemma endTagStep_no_throw: "endTagStep html st \<noteq> Throw err"
  by (auto simp: endTagStep_def Let_def split: option.splits)

lemma endTagStep_Break: "endTagStep html st = Break st' \<Longrightarrow> st' = st"
  by (auto simp: endTagStep_def Let_def split: option.splits)

lemma stackOk_last:
  "stackOk st \<Longrightarrow> last (stack st) < length (nodes st)
     \<and> \<not> truthyIn VOID_ELEMENTS (tagName (nodes st ! last (stack st)))"
  by (simp add: stackOk_def)

lemma textStep_ok:
  assumes "stateOk st" "textStep html st = Continue st'"
  shows "stateOk st'"
proof -
  let ?e = "case indexOf html (js ''<'') (cursor st) of None \<Rightarrow> length html | Some n \<Rightarrow> n"
  let ?raw = "slice html (cursor st) ?e"
  from assms(1) have so: "stackOk st" and ho: "heapOk (nodes st)" by (simp_all add: stateOk_def)
  show ?thesis
  proof (cases "?raw \<noteq> [] \<and> decodeEntities ?raw \<noteq> []")
    case False
    with assms(2) have "st' = st\<lparr>cursor := ?e\<rparr>" by (auto simp: textStep_def Let_def)
    with so ho show ?thesis by (simp add: stateOk_def stackOk_def)
  next
    case True
    from so have ne: "stack st \<noteq> []" by (simp add: stackOk_def)
    let ?h = "appendText (nodes st) (last (stack st)) (decodeEntities ?raw)"
    from True ne assms(2) have st': "st' = st\<lparr>nodes := ?h, cursor := ?e\<rparr>"
      by (auto simp: textStep_def Let_def)
    from stackOk_last[OF so] have l: "last (stack st) < length (nodes st)"
      and v: "\<not> truthyIn VOID_ELEMENTS (tagName (nodes st ! last (stack st)))" by simp_all
    have "heapOk ?h" using ho l v by (rule appendText_heapOk)
    moreover have "stackOk st'"
      unfolding st' using so l by (auto simp: stackOk_def appendText_length appendText_tagName)
    ultimately show ?thesis by (simp add: stateOk_def st')
  qed
qed

lemma textStep_no_throw: "stateOk st \<Longrightarrow> textStep html st \<noteq> Throw err"
  by (auto simp: textStep_def Let_def stateOk_def stackOk_def)

lemma textStep_no_break: "textStep html st \<noteq> Break st'"
  by (auto simp: textStep_def Let_def)

text \<open>The index after the name of the start tag at \<open>i\<close>.\<close>

definition tagNameEnd :: "jsstring \<Rightarrow> nat \<Rightarrow> nat" where
  "tagNameEnd html i = scanWhile (\<lambda>c. \<not> isWhitespace c \<and> c \<noteq> 47 \<and> c \<noteq> 62) html (i + 1)"

lemma startTagStep_unfold:
  assumes "stack st \<noteq> []"
    and "slice html (cursor st + 1) (tagNameEnd html (cursor st)) \<noteq> []"
    and "attributeLoop html (tagNameEnd html (cursor st)) [] False = (j, as, sc)"
  shows "startTagStep html lowerHtml st =
     (let name = toLowerCase (slice html (cursor st + 1) (tagNameEnd html (cursor st)));
          element = length (nodes st);
          h2 = appendChild (nodes st @ [newElement name as]) (last (stack st)) element
      in if \<not> sc \<and> \<not> truthyIn VOID_ELEMENTS name then
           (if truthyIn RAWTEXT_ELEMENTS name
            then rawTextStep html lowerHtml st h2 element name j
            else Continue (st\<lparr>nodes := h2, stack := stack st @ [element], cursor := j\<rparr>))
         else Continue (st\<lparr>nodes := h2, cursor := j\<rparr>))"
  using assms by (simp add: startTagStep_def tagNameEnd_def Let_def alloc_def)

lemma rawTextStep_cases:
  "\<exists>c. rawTextStep html lowerHtml st h element name j = Continue (st\<lparr>nodes := h, cursor := c\<rparr>)
     \<or> (\<exists>t. rawTextStep html lowerHtml st h element name j
            = Continue (st\<lparr>nodes := appendText h element t, cursor := c\<rparr>))"
  by (cases "indexOf lowerHtml (js ''</'' @ name @ js ''>'') j")
    (auto simp: rawTextStep_def Let_def)

lemma stackOk_grow:
  assumes "stackOk st" "length (nodes st) \<le> length h"
    and "\<And>a. a < length (nodes st) \<Longrightarrow> tagName (h ! a) = tagName (nodes st ! a)"
  shows "stackOk (st\<lparr>nodes := h, cursor := c\<rparr>)"
  using assms by (auto simp: stackOk_def)

lemma appendText_stackOk:
  assumes "stackOk (st\<lparr>nodes := h, cursor := c\<rparr>)" "p < length h"
  shows "stackOk (st\<lparr>nodes := appendText h p t, cursor := c'\<rparr>)"
  using assms by (auto simp: stackOk_def appendText_length appendText_tagName less_Suc_eq)

lemma startTagStep_ok:
  assumes "stateOk st" "startTagStep html lowerHtml st = Continue st'"
  shows "stateOk st'"
proof -
  from assms(1) have so: "stackOk st" and ho: "heapOk (nodes st)" by (simp_all add: stateOk_def)
  from so have ne: "stack st \<noteq> []" by (simp add: stackOk_def)
  let ?raw = "slice html (cursor st + 1) (tagNameEnd html (cursor st))"
  show ?thesis
  proof (cases "?raw = []")
    case True
    with assms(2) have "st' = st\<lparr>cursor := cursor st + 1\<rparr>"
      by (simp add: startTagStep_def tagNameEnd_def Let_def)
    with so ho show ?thesis by (simp add: stateOk_def stackOk_def)
  next
    case False
    obtain j as sc where a: "attributeLoop html (tagNameEnd html (cursor st)) [] False = (j, as, sc)"
      by (cases "attributeLoop html (tagNameEnd html (cursor st)) [] False") auto
    let ?name = "toLowerCase ?raw"
    let ?el = "length (nodes st)"
    let ?n = "newElement ?name as"
    let ?h2 = "appendChild (nodes st @ [?n]) (last (stack st)) ?el"
    note u = startTagStep_unfold[OF ne False a, of lowerHtml, unfolded Let_def]
    from stackOk_last[OF so] have l: "last (stack st) < length (nodes st)"
      and v: "\<not> truthyIn VOID_ELEMENTS (tagName (nodes st ! last (stack st)))" by simp_all
    have nok: "nodeOk ?n" using False by (rule newElement_nodeOk)
    have h2: "heapOk ?h2" using ho l v nok by (rule appendChild_new_heapOk)
    have len2: "length ?h2 = Suc ?el" by (rule appendChild_new_length)
    have tag2: "\<And>a. a < ?el \<Longrightarrow> tagName (?h2 ! a) = tagName (nodes st ! a)"
      using l by (simp add: appendChild_new_tagName)
    have tagel: "tagName (?h2 ! ?el) = ?name"
      using l by (simp add: appendChild_new_nth newElement_def toLowerCase_idem)
    have so2: "stackOk (st\<lparr>nodes := ?h2, cursor := c\<rparr>)" for c
      using so len2 tag2 by (intro stackOk_grow) simp_all
    show ?thesis
    proof (cases "\<not> sc \<and> \<not> truthyIn VOID_ELEMENTS ?name")
      case False
      with u assms(2) have "st' = st\<lparr>nodes := ?h2, cursor := j\<rparr>" by auto
      with so2 h2 show ?thesis by (simp add: stateOk_def)
    next
      case nv: True
      show ?thesis
      proof (cases "truthyIn RAWTEXT_ELEMENTS ?name")
        case False
        with nv u assms(2) have st': "st' = st\<lparr>nodes := ?h2, stack := stack st @ [?el], cursor := j\<rparr>"
          by auto
        have "stackOk st'"
          unfolding st' using so2[of j] nv len2 tagel by (auto simp: stackOk_def)
        with h2 st' show ?thesis by (simp add: stateOk_def)
      next
        case True
        with nv u assms(2) have r: "rawTextStep html lowerHtml st ?h2 ?el ?name j = Continue st'"
          by auto
        from rawTextStep_cases[of html lowerHtml st ?h2 ?el ?name j] r
        obtain c where "st' = st\<lparr>nodes := ?h2, cursor := c\<rparr>
           \<or> (\<exists>t. st' = st\<lparr>nodes := appendText ?h2 ?el t, cursor := c\<rparr>)"
          by auto
        then show ?thesis
        proof
          assume "st' = st\<lparr>nodes := ?h2, cursor := c\<rparr>"
          with so2 h2 show ?thesis by (simp add: stateOk_def)
        next
          assume "\<exists>t. st' = st\<lparr>nodes := appendText ?h2 ?el t, cursor := c\<rparr>"
          then obtain t where st': "st' = st\<lparr>nodes := appendText ?h2 ?el t, cursor := c\<rparr>" by auto
          have el: "?el < length ?h2" using len2 by simp
          have "heapOk (appendText ?h2 ?el t)"
            using h2 el nv tagel by (intro appendText_heapOk) simp_all
          moreover have "stackOk st'"
            unfolding st' using so2[of c] el by (rule appendText_stackOk)
          ultimately show ?thesis by (simp add: stateOk_def st')
        qed
      qed
    qed
  qed
qed

lemma startTagStep_no_throw:
  assumes "stateOk st"
  shows "startTagStep html lowerHtml st \<noteq> Throw err"
proof -
  from assms have ne: "stack st \<noteq> []" by (simp add: stateOk_def stackOk_def)
  obtain j as sc where a: "attributeLoop html (tagNameEnd html (cursor st)) [] False = (j, as, sc)"
    by (cases "attributeLoop html (tagNameEnd html (cursor st)) [] False") auto
  show ?thesis
  proof (cases "slice html (cursor st + 1) (tagNameEnd html (cursor st)) = []")
    case True
    then show ?thesis by (simp add: startTagStep_def tagNameEnd_def Let_def)
  next
    case False
    show ?thesis
      unfolding startTagStep_unfold[OF ne False a, unfolded Let_def]
      using rawTextStep_cases[of html lowerHtml st] by (auto, metis outcome.distinct(3))
  qed
qed

text \<open>The one place where the loop stops before the end of the input: an end tag with no
  \<open>>\<close> after it.\<close>

definition unterminatedEndTag :: "jsstring \<Rightarrow> nat \<Rightarrow> bool" where
  "unterminatedEndTag html i =
     (i + 1 < length html \<and> html ! i = 60 \<and> html ! (i + 1) = 47
      \<and> indexOf html (js ''>'') (i + 2) = None)"

lemma parseStep_ok:
  assumes "stateOk st" "parseStep html lowerHtml st = Continue st'"
  shows "stateOk st'"
proof -
  from assms(2) consider
      "commentStep html st = Continue st'"
    | "declarationStep html st = Continue st'"
    | "endTagStep html st = Continue st'"
    | "startTagStep html lowerHtml st = Continue st'"
    | "textStep html st = Continue st'"
    by (auto simp: parseStep_def Let_def split: if_splits)
  then show ?thesis
  proof cases
    case 1
    with assms(1) show ?thesis by (rule commentStep_ok)
  next
    case 2
    with assms(1) show ?thesis by (rule declarationStep_ok)
  next
    case 3
    with assms(1) show ?thesis by (rule endTagStep_ok)
  next
    case 4
    with assms(1) show ?thesis by (rule startTagStep_ok)
  next
    case 5
    with assms(1) show ?thesis by (rule textStep_ok)
  qed
qed

lemma commentStep_Continue: "\<exists>st'. commentStep html st = Continue st'"
  by (auto simp: commentStep_def split: option.splits)

lemma declarationStep_Continue: "\<exists>st'. declarationStep html st = Continue st'"
  by (auto simp: declarationStep_def split: option.splits)

lemma startTagStep_no_break: "startTagStep html lowerHtml st \<noteq> Break st'"
  by (auto simp: startTagStep_def rawTextStep_def Let_def alloc_def
      split: prod.splits option.splits)

lemma parseStep_no_throw:
  assumes "stateOk st"
  shows "parseStep html lowerHtml st \<noteq> Throw err"
  using commentStep_Continue[of html st] declarationStep_Continue[of html st]
    endTagStep_no_throw[of html st err] startTagStep_no_throw[OF assms, of html lowerHtml err]
    textStep_no_throw[OF assms, of html err]
  by (auto simp: parseStep_def Let_def)

lemma parseStep_Break:
  assumes "parseStep html lowerHtml st = Break st'"
  shows "st' = st \<and> unterminatedEndTag html (cursor st)"
proof -
  from assms commentStep_Continue[of html st] declarationStep_Continue[of html st]
    startTagStep_no_break[of html lowerHtml st st'] textStep_no_break[of html st st']
  have e: "endTagStep html st = Break st'"
    and c: "html ! cursor st = 60" "cursor st + 1 < length html" "html ! (cursor st + 1) = 47"
    by (auto simp: parseStep_def Let_def split: if_splits)
  from e have "indexOf html (js ''>'') (cursor st + 2) = None"
    by (auto simp: endTagStep_def Let_def split: option.splits)
  with c endTagStep_Break[OF e] show ?thesis by (simp add: unterminatedEndTag_def)
qed

lemma reachable_stateOk: "reachable html st \<Longrightarrow> stateOk st"
proof (induction rule: reachable.induct)
  case start
  show ?case
    by (simp add: stateOk_def stackOk_def heapOk_def initialState_def newDocument_def nodeOk_def
        truthyIn_def VOID_ELEMENTS_def Object_prototype_def js_def nativeFunction_def)
next
  case (step st st')
  then show ?case by (auto intro: parseStep_ok)
qed

lemma parseLoop_reachable:
  assumes "reachable html st"
  shows "\<exists>st'. parseLoop html (toLowerCase html) st = Inr st' \<and> reachable html st'
     \<and> (length html \<le> cursor st' \<or> unterminatedEndTag html (cursor st'))"
  using assms
proof (induction html "toLowerCase html" st rule: parseLoop.induct)
  case (1 html st)
  show ?case
  proof (cases "cursor st < length html")
    case False
    with 1(2) show ?thesis by (simp add: parseLoop.simps[of html _ st])
  next
    case True
    show ?thesis
    proof (cases "parseStep html (toLowerCase html) st")
      case (Continue st1)
      from 1(2) True Continue have "reachable html st1" by (rule reachable.step)
      from 1(1)[OF True Continue this] True Continue show ?thesis
        by (simp add: parseLoop.simps[of html _ st])
    next
      case (Break st1)
      from parseStep_Break[OF Break] 1(2) True Break show ?thesis
        by (simp add: parseLoop.simps[of html _ st])
    next
      case (Throw err)
      with parseStep_no_throw[OF reachable_stateOk[OF 1(2)]] show ?thesis by blast
    qed
  qed
qed

section \<open>Evaluating the parser on an input\<close>

text \<open>The equations that compute the functions above on a given input, for the
  simplifier; the congruence rules make it compute a bound value before it looks at the
  body that uses it.\<close>

lemmas eval_strings = js_def slice_def sliceFrom_def toLowerCase_def lowerUnit_def trim_def
  isJsSpace_def isWhitespace_def skipWhitespace_def scanWhile.simps indexOf.simps

lemmas eval_tables = truthyIn_def VOID_ELEMENTS_def RAWTEXT_ELEMENTS_def Object_prototype_def
  nativeFunction_def ENTITY_MAP_def entityLookup_def

lemmas eval_entities = decodeEntities_def matchEntity_def entityReplacement_def isHexDigit_def
  isAsciiLetter_def digitValue_def parseInt_def fromCharCode_def

lemmas eval_nodes = newDocument_def newElement_def newTextNode_def alloc_def appendChild_def
  appendText_def setProperty_def

lemmas eval_step = parseStep_def initialState_def commentStep_def
  declarationStep_def endTagStep_def closeLoop.simps startTagStep_def rawTextStep_def textStep_def
  attributeLoop.simps readAttribute_def readAttributeValue_def tagNameEnd_def Let_def

lemmas eval_parse = parse_def parseLoop.simps eval_step

lemmas eval_cong = let_weak_cong prod.case_cong_weak

section \<open>The parser returns a document for every input\<close>

text \<open>
  Claim C1. For every input string, \<^verbatim>\<open>parse\<close> terminates and returns a document: the loop
  is a total function (its termination is proved above: every pass moves the cursor
  forward), it ends in a state and never in the \<^verbatim>\<open>TypeError\<close> of an empty stack, and the
  node 0 of the heap it returns is the document. The loop ends with the cursor at or
  behind the end of the input, or by the \<^verbatim>\<open>break\<close> at an end tag that no \<open>>\<close> closes, which
  drops the rest of the input.
\<close>

theorem parse_returns_document:
  "\<exists>st. parseLoop html (toLowerCase html) initialState = Inr st
     \<and> parse html = Inr (nodes st)
     \<and> nodes st \<noteq> [] \<and> nodeType (nodes st ! 0) = Document
     \<and> (length html \<le> cursor st \<or> unterminatedEndTag html (cursor st))"
proof -
  from parseLoop_reachable[OF reachable.start] obtain st where
    st: "parseLoop html (toLowerCase html) initialState = Inr st" "reachable html st"
      "length html \<le> cursor st \<or> unterminatedEndTag html (cursor st)"
    by blast
  from reachable_stateOk[OF st(2)] have "nodes st \<noteq> []" "nodeType (nodes st ! 0) = Document"
    by (simp_all add: stateOk_def heapOk_def)
  with st show ?thesis by (auto simp: parse_def)
qed

lemma parse_reachable:
  "parse html = Inr h \<Longrightarrow> \<exists>st. reachable html st \<and> nodes st = h"
  using parseLoop_reachable[OF reachable.start, of html] by (auto simp: parse_def)

section \<open>Void elements stay without children\<close>

text \<open>
  Claim C3. In every document that \<^verbatim>\<open>parse\<close> returns, an element whose tag name is one of
  the fourteen names of the void set has an empty list of children, whatever the input
  writes after its tag.
\<close>

theorem void_elements_have_no_children:
  assumes "parse html = Inr h" "a < length h" "nodeType (h ! a) = Element"
    and "tagName (h ! a) \<in> set VOID_ELEMENTS"
  shows "children (h ! a) = []"
proof -
  from parse_reachable[OF assms(1)] obtain st where "reachable html st" "nodes st = h" by blast
  with reachable_stateOk[of html st] have "heapOk h" by (simp add: stateOk_def)
  with assms(2) have "nodeOk (h ! a)" by (simp add: heapOk_def)
  with assms(4) show ?thesis by (simp add: nodeOk_def truthyIn_def)
qed

text \<open>The input \<^verbatim>\<open><br>a</br>\<close>: the text and the end tag leave the \<^verbatim>\<open>br\<close> element, the node 1,
  without children.\<close>

theorem void_elements_have_no_children_witness:
  "case parse (js ''<br>a</br>'') of
     Inl e \<Rightarrow> False
   | Inr h \<Rightarrow> 1 < length h \<and> nodeType (h ! 1) = Element \<and> tagName (h ! 1) = js ''br''
       \<and> tagName (h ! 1) \<in> set VOID_ELEMENTS \<and> children (h ! 1) = []"
proof -
  let ?h = "[\<lparr>nodeType = Document, parent = None, children = [1, 2], tagName = [],
               attributes = [], data = []\<rparr>,
             \<lparr>nodeType = Element, parent = Some 0, children = [], tagName = js ''br'',
               attributes = [], data = []\<rparr>,
             \<lparr>nodeType = Text, parent = Some 0, children = [], tagName = [],
               attributes = [], data = js ''a''\<rparr>]"
  have p: "parse (js ''<br>a</br>'') = Inr ?h"
    by (simp add: eval_strings eval_tables eval_entities eval_nodes eval_parse cong: eval_cong)
  have v: "tagName (?h ! 1) \<in> set VOID_ELEMENTS" by (simp add: VOID_ELEMENTS_def js_def)
  from void_elements_have_no_children[OF p, of 1] v have "children (?h ! 1) = []" by simp
  with v show ?thesis unfolding p by (simp add: js_def)
qed

section \<open>End tags\<close>






section \<open>Start tags\<close>

lemma slice_nth: "a + k < b \<Longrightarrow> b \<le> length s \<Longrightarrow> slice s a b ! k = s ! (a + k)"
  by (simp add: slice_def)

lemma parseStep_startTag:
  assumes "html ! cursor st = 60"
    and "\<not> (cursor st + 1 < length html
            \<and> (html ! (cursor st + 1) = 33 \<or> html ! (cursor st + 1) = 47))"
  shows "parseStep html lowerHtml st = startTagStep html lowerHtml st"
proof -
  have "\<not> (cursor st + 3 < length html \<and> slice html (cursor st) (cursor st + 4) = js ''<!--'')"
  proof
    assume a: "cursor st + 3 < length html \<and> slice html (cursor st) (cursor st + 4) = js ''<!--''"
    then have "slice html (cursor st) (cursor st + 4) ! 1 = 33" by (simp add: js_def)
    moreover from a have "slice html (cursor st) (cursor st + 4) ! 1 = html ! (cursor st + 1)"
      by (intro slice_nth) simp_all
    ultimately have "html ! (cursor st + 1) = 33" by simp
    with a assms(2) show False by simp
  qed
  with assms show ?thesis by (auto simp add: parseStep_def Let_def)
qed

lemma stateOk_top:
  assumes "stateOk st"
  shows "stack st \<noteq> []" "last (stack st) < length (nodes st)"
  using assms stackOk_last[of st] by (simp_all add: stateOk_def stackOk_def)



text \<open>The same happens, with no marker, for a tag named as a property that the void table
  inherits.\<close>

lemma inherited_name_is_not_pushed:
  "parse (js ''<constructor>x'')
     = Inr [\<lparr>nodeType = Document, parent = None, children = [1, 2], tagName = [],
              attributes = [], data = []\<rparr>,
            \<lparr>nodeType = Element, parent = Some 0, children = [], tagName = js ''constructor'',
              attributes = [], data = []\<rparr>,
            \<lparr>nodeType = Text, parent = Some 0, children = [], tagName = [],
              attributes = [], data = js ''x''\<rparr>]"
  by (simp add: eval_strings eval_tables eval_entities eval_nodes eval_parse cong: eval_cong)


section \<open>Raw-text elements\<close>

lemma indexOf_None_no_match:
  "indexOf s needle k = None \<Longrightarrow> needle \<noteq> [] \<Longrightarrow> k \<le> e
     \<Longrightarrow> take (length needle) (drop e s) \<noteq> needle"
proof (induction s needle k rule: indexOf.induct)
  case (1 s needle k)
  show ?case
  proof (cases "length s < k + length needle")
    case True
    from 1(3) have "0 < length needle" by simp
    with True 1(4) have "length s - e < length needle" by arith
    then have "length (drop e s) < length needle" by simp
    then have "length (take (length needle) (drop e s)) < length needle" by simp
    then show ?thesis by (metis less_irrefl)
  next
    case False
    with 1(2) have nm: "take (length needle) (drop k s) \<noteq> needle"
      and r: "indexOf s needle (k + 1) = None"
      by (auto simp add: indexOf.simps[of s needle k] split: if_splits)
    show ?thesis
    proof (cases "e = k")
      case True
      with nm show ?thesis by simp
    next
      case ne: False
      with 1(4) have "k + 1 \<le> e" by simp
      from 1(1)[OF False nm r 1(3) this] show ?thesis .
    qed
  qed
qed

lemma indexOf_Some_least:
  "indexOf s needle k = Some e \<Longrightarrow> k \<le> e' \<Longrightarrow> e' < e
     \<Longrightarrow> take (length needle) (drop e' s) \<noteq> needle"
proof (induction s needle k rule: indexOf.induct)
  case (1 s needle k)
  from 1(2) have len: "\<not> length s < k + length needle"
    by (auto simp add: indexOf.simps[of s needle k] split: if_splits)
  show ?case
  proof (cases "take (length needle) (drop k s) = needle")
    case True
    with 1(2) len have "e = k" by (simp add: indexOf.simps[of s needle k])
    with 1(3,4) show ?thesis by simp
  next
    case False
    with 1(2) len have r: "indexOf s needle (k + 1) = Some e"
      by (simp add: indexOf.simps[of s needle k])
    show ?thesis
    proof (cases "e' = k")
      case True
      with False show ?thesis by simp
    next
      case ne: False
      with 1(3) have "k + 1 \<le> e'" by simp
      from 1(1)[OF len False r this 1(4)] show ?thesis .
    qed
  qed
qed

lemma indexOf_eq_Some:
  assumes "needle \<noteq> []" "k \<le> e" "take (length needle) (drop e s) = needle"
    and "\<forall>e'. k \<le> e' \<and> e' < e \<longrightarrow> take (length needle) (drop e' s) \<noteq> needle"
  shows "indexOf s needle k = Some e"
proof (cases "indexOf s needle k")
  case None
  from indexOf_None_no_match[OF None assms(1,2)] assms(3) show ?thesis by simp
next
  case (Some x)
  from indexOf_found[OF Some] indexOf_ge[OF Some] assms(4) have "e \<le> x"
    by (metis not_less)
  moreover from indexOf_Some_least[OF Some assms(2)] assms(3) have "x \<le> e"
    by (metis not_less)
  ultimately show ?thesis using Some by simp
qed

lemma indexOf_eq_None:
  assumes "\<forall>e. k \<le> e \<longrightarrow> take (length needle) (drop e s) \<noteq> needle"
  shows "indexOf s needle k = None"
proof (cases "indexOf s needle k")
  case None
  then show ?thesis .
next
  case (Some x)
  from indexOf_found[OF Some] indexOf_ge[OF Some] assms show ?thesis by blast
qed

lemma toLowerCase_map:
  "\<forall>c\<in>set s. c \<noteq> 304 \<Longrightarrow> toLowerCase s = map (\<lambda>c. hd (lowerUnit c)) s"
  by (induction s) (auto simp: toLowerCase_def lowerUnit_def)

lemma toLowerCase_window:
  assumes "\<forall>c\<in>set s. c \<noteq> 304"
  shows "take n (drop k (toLowerCase s)) = toLowerCase (slice s k (k + n))"
proof -
  have sub: "\<forall>c\<in>set (slice s k (k + n)). c \<noteq> 304"
    using assms by (auto simp: slice_def dest!: in_set_dropD in_set_takeD)
  have "slice s k (k + n) = take n (drop k s)"
    by (simp add: slice_def drop_take)
  then show ?thesis
    unfolding toLowerCase_map[OF assms] toLowerCase_map[OF sub]
    by (simp add: take_map drop_map)
qed

text \<open>The end tag \<^verbatim>\<open></name>\<close> stands at the index \<open>k\<close> of the source, in any case of its
  letters.\<close>

definition closeTagAt :: "jsstring \<Rightarrow> jsstring \<Rightarrow> nat \<Rightarrow> bool" where
  "closeTagAt html name k =
     (toLowerCase (slice html k (k + length name + 3)) = js ''</'' @ name @ js ''>'')"

text \<open>What the pass at a raw-text start tag leaves behind, from the state \<open>st\<close> to the
  state \<open>st'\<close>: the cursor at \<open>c\<close>, the same stack (the element is not pushed), the new
  element under the node on top of the stack, and, when the captured text \<open>raw\<close> is not
  empty, one child: a text node that holds \<open>raw\<close> as it is. When \<open>raw\<close> is empty the element
  has no child.\<close>

definition rawTextOutcome :: "pstate \<Rightarrow> pstate \<Rightarrow> jsstring \<Rightarrow> jsstring \<Rightarrow> nat \<Rightarrow> bool" where
  "rawTextOutcome st st' name raw c =
     (let el = length (nodes st)
      in cursor st' = c \<and> stack st' = stack st
         \<and> nodeType (nodes st' ! el) = Element \<and> tagName (nodes st' ! el) = name
         \<and> parent (nodes st' ! el) = Some (last (stack st))
         \<and> (if raw = [] then length (nodes st') = el + 1 \<and> children (nodes st' ! el) = []
             else length (nodes st') = el + 2 \<and> children (nodes st' ! el) = [el + 1]
               \<and> nodes st' ! (el + 1)
                   = \<lparr>nodeType = Text, parent = Some el, children = [], tagName = [],
                      attributes = [], data = raw\<rparr>))"

lemma rawText_nodes:
  assumes "last (stack st) < length (nodes st)" "toLowerCase name = name"
  shows "rawTextOutcome st
           (st\<lparr>nodes := (if raw \<noteq> []
                      then appendText (appendChild (nodes st @ [newElement name as])
                             (last (stack st)) (length (nodes st))) (length (nodes st)) raw
                      else appendChild (nodes st @ [newElement name as])
                             (last (stack st)) (length (nodes st))),
               cursor := c\<rparr>)
           name raw c"
proof -
  let ?el = "length (nodes st)"
  let ?h2 = "appendChild (nodes st @ [newElement name as]) (last (stack st)) ?el"
  have l2: "length ?h2 = Suc ?el" by (rule appendChild_new_length)
  have e2: "?h2 ! ?el = (newElement name as)\<lparr>parent := Some (last (stack st))\<rparr>"
    using assms(1) by (simp add: appendChild_new_nth)
  show ?thesis
  proof (cases "raw = []")
    case True
    with e2 l2 assms(2) show ?thesis by (simp add: rawTextOutcome_def newElement_def)
  next
    case False
    let ?h3 = "appendChild (?h2 @ [newTextNode raw]) ?el (length ?h2)"
    have h3: "appendText ?h2 ?el raw = ?h3" by (simp add: appendText_def alloc_def)
    have el: "?el < length ?h2" using l2 by simp
    have l3: "length ?h3 = ?el + 2" using appendChild_new_length[of ?h2 "newTextNode raw" ?el] l2 by simp
    have a: "?h3 ! ?el = (?h2 ! ?el)\<lparr>children := children (?h2 ! ?el) @ [length ?h2]\<rparr>"
      using appendChild_new_nth[OF el, of ?el "newTextNode raw"] el by simp
    have b: "?h3 ! (length ?h2) = (newTextNode raw)\<lparr>parent := Some ?el\<rparr>"
      using appendChild_new_nth[OF el, of "length ?h2" "newTextNode raw"] el by simp
    from False a b l3 assms(2) show ?thesis
      unfolding rawTextOutcome_def h3 Let_def e2 l2
      by (simp add: newElement_def newTextNode_def)
  qed
qed

lemma rawtext_name:
  "name \<in> set RAWTEXT_ELEMENTS \<Longrightarrow> \<not> truthyIn VOID_ELEMENTS name \<and> truthyIn RAWTEXT_ELEMENTS name"
  by (auto simp: eval_tables js_def)

text \<open>
  Claim C4, as the code has it. The claim as written fails at a raw-text tag with a
  self-closing marker (the theorem \<open>self_closing_raw_text_tag_captures_nothing\<close> below):
  the source takes the raw-text branch only under \<^verbatim>\<open>!selfClosing\<close>; and an empty capture
  gives no text node (\<^verbatim>\<open>if (rawText)\<close>). What holds, for an input without the code unit
  U+0130 (whose lower case is longer, so that the indices of the lower-cased copy are not
  those of the source): at a start tag whose attribute loop meets no \<open>/\<close> and whose
  lower-cased name is \<^verbatim>\<open>script\<close>, \<^verbatim>\<open>style\<close> or \<^verbatim>\<open>textarea\<close>, with \<open>j\<close> the index after the tag:
  if the end tag \<^verbatim>\<open></name>\<close> stands nowhere from \<open>j\<close> on in any case of letters, the rest of
  the input from \<open>j\<close> is captured and the cursor goes to the end; otherwise, with \<open>k\<close> the
  first index from \<open>j\<close> on where it stands, the source text from \<open>j\<close> to \<open>k\<close> is captured
  and the cursor goes behind the end tag. The captured text is the data of the one child
  of the element, undecoded.
\<close>

theorem raw_text_is_captured_literally:
  assumes "reachable html st" "html ! cursor st = 60"
    and "\<not> (cursor st + 1 < length html
            \<and> (html ! (cursor st + 1) = 33 \<or> html ! (cursor st + 1) = 47))"
    and "name = toLowerCase (slice html (cursor st + 1) (tagNameEnd html (cursor st)))"
    and "attributeLoop html (tagNameEnd html (cursor st)) [] False = (j, as, False)"
    and "name \<in> set RAWTEXT_ELEMENTS"
    and "\<forall>c\<in>set html. c \<noteq> 304"
  shows "((\<forall>k. j \<le> k \<longrightarrow> \<not> closeTagAt html name k)
            \<longrightarrow> (\<exists>st'. parseStep html (toLowerCase html) st = Continue st'
                   \<and> rawTextOutcome st st' name (sliceFrom html j) (length html)))
       \<and> (\<forall>k. j \<le> k \<and> closeTagAt html name k
                 \<and> (\<forall>k'. j \<le> k' \<and> k' < k \<longrightarrow> \<not> closeTagAt html name k')
            \<longrightarrow> (\<exists>st'. parseStep html (toLowerCase html) st = Continue st'
                   \<and> rawTextOutcome st st' name (slice html j k) (k + length name + 3)))"
proof -
  from reachable_stateOk[OF assms(1)] have ok: "stateOk st" .
  note top = stateOk_top[OF ok]
  let ?raw = "slice html (cursor st + 1) (tagNameEnd html (cursor st))"
  let ?el = "length (nodes st)"
  let ?h2 = "appendChild (nodes st @ [newElement name as]) (last (stack st)) ?el"
  let ?close = "js ''</'' @ name @ js ''>''"
  have cl: "length ?close = length name + 3" by (simp add: js_def)
  have cne: "?close \<noteq> []" by (simp add: js_def)
  from assms(6) have "name \<noteq> []" by (auto simp: eval_tables js_def)
  with assms(4) have rne: "?raw \<noteq> []" by (auto simp: toLowerCase_def)
  from assms(4) have low: "toLowerCase name = name" by (simp add: toLowerCase_idem)
  note nm = rawtext_name[OF assms(6)]
  have step: "parseStep html (toLowerCase html) st
                = rawTextStep html (toLowerCase html) st ?h2 ?el name j"
    using startTagStep_unfold[OF top(1) rne assms(5), of "toLowerCase html"] nm assms(4)
    by (simp add: parseStep_startTag[OF assms(2,3)] Let_def)
  have win: "take (length ?close) (drop k (toLowerCase html)) = ?close \<longleftrightarrow> closeTagAt html name k"
    for k
    unfolding toLowerCase_window[OF assms(7)] cl closeTagAt_def by (simp add: add.assoc)
  show ?thesis
  proof (intro conjI allI impI)
    assume no: "\<forall>k. j \<le> k \<longrightarrow> \<not> closeTagAt html name k"
    with win have "\<forall>e. j \<le> e \<longrightarrow> take (length ?close) (drop e (toLowerCase html)) \<noteq> ?close"
      by blast
    then have "indexOf (toLowerCase html) ?close j = None"
      by (rule indexOf_eq_None)
    then have "parseStep html (toLowerCase html) st
        = Continue (st\<lparr>nodes := (if sliceFrom html j \<noteq> []
                                then appendText ?h2 ?el (sliceFrom html j) else ?h2),
                      cursor := length html\<rparr>)"
      unfolding step by (simp add: rawTextStep_def Let_def)
    with rawText_nodes[OF top(2) low, where raw="sliceFrom html j" and as=as and c="length html"]
    show "\<exists>st'. parseStep html (toLowerCase html) st = Continue st'
                   \<and> rawTextOutcome st st' name (sliceFrom html j) (length html)"
      by blast
  next
    fix k
    assume k: "j \<le> k \<and> closeTagAt html name k
                 \<and> (\<forall>k'. j \<le> k' \<and> k' < k \<longrightarrow> \<not> closeTagAt html name k')"
    with win have "j \<le> k" "take (length ?close) (drop k (toLowerCase html)) = ?close"
      "\<forall>e'. j \<le> e' \<and> e' < k \<longrightarrow> take (length ?close) (drop e' (toLowerCase html)) \<noteq> ?close"
      by blast+
    with cne have "indexOf (toLowerCase html) ?close j = Some k"
      by (rule indexOf_eq_Some)
    then have "parseStep html (toLowerCase html) st
        = Continue (st\<lparr>nodes := (if slice html j k \<noteq> []
                                then appendText ?h2 ?el (slice html j k) else ?h2),
                      cursor := k + length name + 3\<rparr>)"
      unfolding step by (simp add: rawTextStep_def Let_def js_def)
    with rawText_nodes[OF top(2) low, where raw="slice html j k" and as=as and c="k + length name + 3"]
    show "\<exists>st'. parseStep html (toLowerCase html) st = Continue st'
                   \<and> rawTextOutcome st st' name (slice html j k) (k + length name + 3)"
      by blast
  qed
qed

text \<open>The input \<^verbatim>\<open><style/>a\<close>: the text after the tag is not captured; it becomes a child
  of the document, decoded as any text run.\<close>

theorem self_closing_raw_text_tag_captures_nothing:
  "parse (js ''<style/>a'')
     = Inr [\<lparr>nodeType = Document, parent = None, children = [1, 2], tagName = [],
              attributes = [], data = []\<rparr>,
            \<lparr>nodeType = Element, parent = Some 0, children = [], tagName = js ''style'',
              attributes = [], data = []\<rparr>,
            \<lparr>nodeType = Text, parent = Some 0, children = [], tagName = [],
              attributes = [], data = js ''a''\<rparr>]"
  by (simp add: eval_strings eval_tables eval_entities eval_nodes eval_parse cong: eval_cong)

text \<open>The input \<^verbatim>\<open><style><b></STYLE>\<close>: the capture is the text \<^verbatim>\<open><b>\<close> as it stands, the end
  tag is found in upper case, and the cursor ends behind it.\<close>

theorem raw_text_is_captured_literally_witness:
  "\<exists>st'. parseStep (js ''<style><b></STYLE>'') (toLowerCase (js ''<style><b></STYLE>''))
           initialState = Continue st'
     \<and> cursor st' = 18 \<and> stack st' = [0] \<and> length (nodes st') = 3
     \<and> tagName (nodes st' ! 1) = js ''style'' \<and> children (nodes st' ! 1) = [2]
     \<and> nodes st' ! 2 = \<lparr>nodeType = Text, parent = Some 1, children = [], tagName = [],
                          attributes = [], data = js ''<b>''\<rparr>"
proof -
  let ?html = "js ''<style><b></STYLE>''"
  have e: "tagNameEnd ?html (cursor initialState) = 6"
    by (simp add: eval_strings eval_step)
  have 1: "?html ! cursor initialState = 60"
    and 2: "\<not> (cursor initialState + 1 < length ?html
            \<and> (?html ! (cursor initialState + 1) = 33 \<or> ?html ! (cursor initialState + 1) = 47))"
    and 3: "js ''style'' = toLowerCase (slice ?html (cursor initialState + 1) (tagNameEnd ?html (cursor initialState)))"
    unfolding e by (simp_all add: eval_strings initialState_def)
  have 4: "attributeLoop ?html (tagNameEnd ?html (cursor initialState)) [] False = (7, [], False)"
    unfolding e by (simp add: eval_strings eval_step)
  have 5: "js ''style'' \<in> set RAWTEXT_ELEMENTS" by (simp add: eval_strings eval_tables)
  have 6: "\<forall>c\<in>set ?html. c \<noteq> 304" by (simp add: js_def)
  have k: "7 \<le> (10::nat) \<and> closeTagAt ?html (js ''style'') 10
             \<and> (\<forall>k'. 7 \<le> k' \<and> k' < 10 \<longrightarrow> \<not> closeTagAt ?html (js ''style'') k')"
  proof (intro conjI allI impI)
    show "closeTagAt ?html (js ''style'') 10" by (simp add: closeTagAt_def eval_strings)
    fix k' :: nat assume "7 \<le> k' \<and> k' < 10"
    then have "k' = 7 \<or> k' = 8 \<or> k' = 9" by arith
    then show "\<not> closeTagAt ?html (js ''style'') k'"
      by (auto simp add: closeTagAt_def eval_strings)
  qed simp
  from raw_text_is_captured_literally[OF reachable.start 1 2 3 4 5 6] k
  obtain st' where "parseStep ?html (toLowerCase ?html) initialState = Continue st'"
    "rawTextOutcome initialState st' (js ''style'') (slice ?html 7 10) (10 + length (js ''style'') + 3)"
    by blast
  then show ?thesis
    by (intro exI[of _ st']) (simp add: rawTextOutcome_def initialState_def eval_strings numeral_2_eq_2)
qed

text \<open>With U+0130 in the captured text the end tag is found one index later in the
  lower-cased copy than it stands in the source: the capture takes the \<open><\<close> of the end tag
  with it.\<close>

lemma dotted_capital_I_shifts_the_capture:
  "parse (js ''<style>'' @ [304] @ js ''</style>'')
     = Inr [\<lparr>nodeType = Document, parent = None, children = [1], tagName = [],
              attributes = [], data = []\<rparr>,
            \<lparr>nodeType = Element, parent = Some 0, children = [2], tagName = js ''style'',
              attributes = [], data = []\<rparr>,
            \<lparr>nodeType = Text, parent = Some 1, children = [], tagName = [],
              attributes = [], data = [304, 60]\<rparr>]"
  by (simp add: eval_strings eval_tables eval_entities eval_nodes eval_parse cong: eval_cong)

section \<open>Entity decoding on inputs the claim names\<close>

text \<open>
  Claim C5 says that an unknown named entity passes through unchanged and that every
  numeric reference becomes the character of its code point. The code reads
  \<^verbatim>\<open>ENTITY_MAP[body]\<close> without \<^verbatim>\<open>hasOwnProperty\<close> (the attribute accessors of the same file use
  it), so a name that every object inherits is found in the table, and the callback returns
  the inherited function, which \<^verbatim>\<open>replace\<close> turns into its text.
\<close>

theorem inherited_name_is_decoded:
  "decodeEntities (js ''&constructor;'') = js ''function Object() { [native code] }''"
  by (simp add: eval_strings eval_tables eval_entities)

text \<open>\<^verbatim>\<open>String.fromCharCode\<close> keeps 16 bits: a reference to a code point from U+10000 on
  becomes another character (here U+F600 for U+1F600).\<close>

lemma supplementary_reference_is_truncated:
  "decodeEntities (js ''&#128512;'') = [62976] \<and> decodeEntities (js ''&#x1F600;'') = [62976]"
  by (simp add: eval_strings eval_tables eval_entities)

text \<open>A decimal payload is read by \<^verbatim>\<open>parseInt\<close>, which stops at the first code unit that is
  no decimal digit: it is left verbatim only when it starts with a letter.\<close>

lemma decimal_prefix_is_decoded:
  "decodeEntities (js ''&#65f;'') = js ''A'' \<and> decodeEntities (js ''&#f65;'') = js ''&#f65;''"
  by (simp add: eval_strings eval_tables eval_entities)

text \<open>The six names of the table, an unknown name, and a decimal and a hexadecimal
  reference.\<close>

lemma table_entities_are_decoded:
  "decodeEntities (js ''&amp;&lt;&gt;&quot;&apos;&nbsp;&foo;&#65;&#x41;'')
     = [38, 60, 62, 34, 39, 32] @ js ''&foo;AA''"
  by (simp add: eval_strings eval_tables eval_entities)

section \<open>The selector compiler\<close>

text \<open>
  A compiled selector is a list of groups; a group is a list of steps, each a combinator and
  a simple selector. The optional fields \<^verbatim>\<open>tag\<close>, \<^verbatim>\<open>id\<close> and \<^verbatim>\<open>value\<close> are options
  (\<open>None\<close> is \<^verbatim>\<open>undefined\<close>); the combinator \<^verbatim>\<open>" "\<close> is \<open>Descendant\<close> and \<^verbatim>\<open>">"\<close> is \<open>Child\<close>.
\<close>

record SelectorAttr =
  attrName :: jsstring
  attrValue :: "jsstring option"

record SelectorPart =
  partTag :: "jsstring option"
  partId :: "jsstring option"
  partClasses :: "jsstring list"
  partAttrs :: "SelectorAttr list"

datatype Combinator = Descendant | Child

record SelectorStep =
  combinator :: Combinator
  part :: SelectorPart

text \<open>A string or \<^verbatim>\<open>undefined\<close> used as a condition.\<close>

definition truthyString :: "jsstring option \<Rightarrow> bool" where
  "truthyString s = (case s of None \<Rightarrow> False | Some t \<Rightarrow> t \<noteq> [])"

definition readIdentifier :: "jsstring \<Rightarrow> nat \<Rightarrow> jsstring \<times> nat" where
  "readIdentifier input start =
     (let i = scanWhile isIdentifierChar input start in (slice input start i, i))"

text \<open>The value of an attribute selector, from the index after its name and the white
  space behind it: \<open>None\<close> is \<^verbatim>\<open>undefined\<close> (no \<open>=\<close>).\<close>

definition readSelectorValue :: "jsstring \<Rightarrow> nat \<Rightarrow> jsstring option \<times> nat" where
  "readSelectorValue input i =
     (if i < length input \<and> input ! i = 61 then
        (let i5 = skipWhitespace input (i + 1)
         in if i5 < length input \<and> (input ! i5 = 34 \<or> input ! i5 = 39) then
              (let quote = input ! i5;
                   valueStart = i5 + 1;
                   i6 = scanWhile (\<lambda>c. c \<noteq> quote) input valueStart
               in (Some (slice input valueStart i6),
                   if i6 < length input \<and> input ! i6 = quote then i6 + 1 else i6))
            else
              (let i6 = scanWhile (\<lambda>c. \<not> (isWhitespace c \<or> c = 93)) input i5
               in (Some (slice input i5 i6), i6)))
      else (None, i))"

definition readAttributeSelector :: "jsstring \<Rightarrow> nat \<Rightarrow> SelectorAttr \<times> nat" where
  "readAttributeSelector input start =
     (let nameData = readIdentifier input (skipWhitespace input (start + 1));
          name = toLowerCase (fst nameData);
          valueData = readSelectorValue input (skipWhitespace input (snd nameData));
          i7 = skipWhitespace input (snd valueData);
          i8 = (if i7 < length input \<and> input ! i7 = 93 then i7 + 1 else i7)
      in (\<lparr>attrName = name, attrValue = fst valueData\<rparr>, i8))"

lemma readIdentifier_ge: "start \<le> snd (readIdentifier input start)"
  by (simp add: readIdentifier_def Let_def scanWhile_ge)

lemma readIdentifier_gt:
  "fst (readIdentifier input start) \<noteq> [] \<Longrightarrow> start < snd (readIdentifier input start)"
  by (auto simp: readIdentifier_def Let_def slice_def)

lemma readSelectorValue_ge: "i \<le> snd (readSelectorValue input i)"
proof -
  let ?i5 = "skipWhitespace input (i + 1)"
  have a: "i + 1 \<le> ?i5" by (rule skipWhitespace_ge)
  have b: "?i5 + 1 \<le> scanWhile (\<lambda>c. c \<noteq> input ! ?i5) input (?i5 + 1)" by (rule scanWhile_ge)
  have c: "?i5 \<le> scanWhile (\<lambda>c. \<not> (isWhitespace c \<or> c = 93)) input ?i5" by (rule scanWhile_ge)
  show ?thesis using a b c by (simp add: readSelectorValue_def Let_def)
qed

lemma readAttributeSelector_gt: "start < snd (readAttributeSelector input start)"
proof -
  let ?i1 = "skipWhitespace input (start + 1)"
  let ?i3 = "skipWhitespace input (snd (readIdentifier input ?i1))"
  let ?i7 = "skipWhitespace input (snd (readSelectorValue input ?i3))"
  have a: "start + 1 \<le> ?i1" by (rule skipWhitespace_ge)
  have b: "?i1 \<le> snd (readIdentifier input ?i1)" by (rule readIdentifier_ge)
  have c: "snd (readIdentifier input ?i1) \<le> ?i3" by (rule skipWhitespace_ge)
  have d: "?i3 \<le> snd (readSelectorValue input ?i3)" by (rule readSelectorValue_ge)
  have e: "snd (readSelectorValue input ?i3) \<le> ?i7" by (rule skipWhitespace_ge)
  have "?i7 \<le> snd (readAttributeSelector input start)"
    by (simp add: readAttributeSelector_def Let_def)
  with a b c d e show ?thesis by linarith
qed

text \<open>The loop of \<^verbatim>\<open>parseSimpleSelector\<close>: it stops at white space, \<open>>\<close> or a comma, and
  every other pass moves the index forward.\<close>

function simpleSelectorLoop :: "jsstring \<Rightarrow> nat \<Rightarrow> SelectorPart \<Rightarrow> SelectorPart \<times> nat" where
  "simpleSelectorLoop input i p =
     (if i < length input then
        (if isWhitespace (input ! i) \<or> input ! i = 62 \<or> input ! i = 44 then (p, i)
         else if input ! i = 35 then
           simpleSelectorLoop input (snd (readIdentifier input (i + 1)))
             (if fst (readIdentifier input (i + 1)) \<noteq> []
              then p\<lparr>partId := Some (fst (readIdentifier input (i + 1)))\<rparr> else p)
         else if input ! i = 46 then
           simpleSelectorLoop input (snd (readIdentifier input (i + 1)))
             (if fst (readIdentifier input (i + 1)) \<noteq> []
              then p\<lparr>partClasses := partClasses p @ [fst (readIdentifier input (i + 1))]\<rparr>
              else p)
         else if input ! i = 91 then
           simpleSelectorLoop input (snd (readAttributeSelector input i))
             (if attrName (fst (readAttributeSelector input i)) \<noteq> []
              then p\<lparr>partAttrs := partAttrs p @ [fst (readAttributeSelector input i)]\<rparr>
              else p)
         else if input ! i = 42 then simpleSelectorLoop input (i + 1) (p\<lparr>partTag := Some (js ''*'')\<rparr>)
         else if fst (readIdentifier input i) \<noteq> [] then
           simpleSelectorLoop input (snd (readIdentifier input i))
             (if \<not> truthyString (partTag p)
              then p\<lparr>partTag := Some (toLowerCase (fst (readIdentifier input i)))\<rparr> else p)
         else simpleSelectorLoop input (i + 1) p)
      else (p, i))"
  by pat_completeness auto
termination
proof (relation "measure (\<lambda>(input, i, p). length input - i)", goal_cases)
  case 1
  show ?case by simp
next
  case (2 input i p)
  then show ?case using readIdentifier_ge[of "i + 1" input] by simp
next
  case (3 input i p)
  then show ?case using readIdentifier_ge[of "i + 1" input] by simp
next
  case (4 input i p)
  then show ?case using readAttributeSelector_gt[of i input] by simp
next
  case (5 input i p)
  then show ?case by simp
next
  case (6 input i p)
  then show ?case using readIdentifier_gt[of input i] by simp
next
  case (7 input i p)
  then show ?case by simp
qed

declare simpleSelectorLoop.simps [simp del]

definition parseSimpleSelector :: "jsstring \<Rightarrow> nat \<Rightarrow> SelectorPart \<times> nat" where
  "parseSimpleSelector input start =
     simpleSelectorLoop input start
       \<lparr>partTag = None, partId = None, partClasses = [], partAttrs = []\<rparr>"

text \<open>
  The loop of \<^verbatim>\<open>parseSelectorGroup\<close>. A pass does not always move the index forward: at a
  comma \<^verbatim>\<open>parseSimpleSelector\<close> returns where it started. The loop is therefore defined as
  a partial function, and \<open>None\<close> is the run that never ends.
\<close>

partial_function (option) selectorGroupLoop ::
    "jsstring \<Rightarrow> nat \<Rightarrow> Combinator \<Rightarrow> SelectorStep list \<Rightarrow> SelectorStep list option" where
  "selectorGroupLoop input i c steps =
     (if i < length input then
        (if length input \<le> skipWhitespace input i then Some steps
         else if input ! (skipWhitespace input i) = 62
           then selectorGroupLoop input (skipWhitespace input i + 1) Child steps
         else selectorGroupLoop input (snd (parseSimpleSelector input (skipWhitespace input i)))
                Descendant
                (steps @ [\<lparr>combinator = c,
                            part = fst (parseSimpleSelector input (skipWhitespace input i))\<rparr>]))
      else Some steps)"

definition parseSelectorGroup :: "jsstring \<Rightarrow> SelectorStep list option" where
  "parseSelectorGroup input = selectorGroupLoop input 0 Descendant []"

text \<open>The loop of \<^verbatim>\<open>splitSelectorGroups\<close>; the quote is 0 outside a quoted string.\<close>

function splitLoop :: "jsstring \<Rightarrow> nat \<Rightarrow> nat \<Rightarrow> nat \<Rightarrow> nat \<Rightarrow> jsstring list \<Rightarrow> jsstring list" where
  "splitLoop selector i start depth quote groups =
     (if i < length selector then
        (if quote \<noteq> 0 then
           splitLoop selector (i + 1) start depth (if selector ! i = quote then 0 else quote) groups
         else if selector ! i = 34 \<or> selector ! i = 39 then
           splitLoop selector (i + 1) start depth (selector ! i) groups
         else if selector ! i = 91 then splitLoop selector (i + 1) start (depth + 1) quote groups
         else if selector ! i = 93 \<and> depth \<noteq> 0 then
           splitLoop selector (i + 1) start (depth - 1) quote groups
         else if selector ! i = 44 \<and> depth = 0 then
           splitLoop selector (i + 1) (i + 1) depth quote (groups @ [slice selector start i])
         else splitLoop selector (i + 1) start depth quote groups)
      else groups @ [sliceFrom selector start])"
  by pat_completeness auto
termination
  by (relation "measure (\<lambda>(selector, i, start, depth, quote, groups). length selector - i)") auto

declare splitLoop.simps [simp del]

definition splitSelectorGroups :: "jsstring \<Rightarrow> jsstring list" where
  "splitSelectorGroups selector = splitLoop selector 0 0 0 0 []"

text \<open>The loop of \<^verbatim>\<open>parseSelectorList\<close> over the groups.\<close>

fun selectorListLoop :: "jsstring list \<Rightarrow> SelectorStep list list \<Rightarrow> SelectorStep list list option" where
  "selectorListLoop [] list = Some list"
| "selectorListLoop (g # groups) list =
     (if trim g = [] then selectorListLoop groups list
      else
        (case parseSelectorGroup (trim g) of
           None \<Rightarrow> None
         | Some steps \<Rightarrow> selectorListLoop groups (if steps \<noteq> [] then list @ [steps] else list)))"

definition parseSelectorList :: "jsstring \<Rightarrow> SelectorStep list list option" where
  "parseSelectorList selector = selectorListLoop (splitSelectorGroups selector) []"

lemmas eval_selector = truthyString_def readIdentifier_def readAttributeSelector_def readSelectorValue_def
  simpleSelectorLoop.simps parseSimpleSelector_def selectorGroupLoop.simps parseSelectorGroup_def
  splitLoop.simps splitSelectorGroups_def parseSelectorList_def isIdentifierChar_def

text \<open>
  The first step of every query is \<^verbatim>\<open>parseSelectorList\<close>. A comma that \<^verbatim>\<open>splitSelectorGroups\<close> leaves inside a group (in
  brackets, or behind a quote that is not closed) is met by \<^verbatim>\<open>parseSimpleSelector\<close>, which
  stops there without taking it, and \<^verbatim>\<open>parseSelectorGroup\<close> calls it again at the same index,
  with one more step pushed, for ever.
\<close>

lemma comma_stops_simple_selector:
  "parseSimpleSelector (js ''[a,b]'') 2
     = (\<lparr>partTag = None, partId = None, partClasses = [], partAttrs = []\<rparr>, 2)"
  by (simp add: eval_strings eval_selector cong: eval_cong)

lemma group_loop_stays_at_comma:
  assumes "selectorGroupLoop input i c steps = Some y"
  shows "\<not> (input = js ''[a,b]'' \<and> i = 2)"
proof (rule selectorGroupLoop.raw_induct[where P = "\<lambda>input i c steps y. \<not> (input = js ''[a,b]'' \<and> i = 2)",
      OF _ assms], goal_cases)
  case (1 loop input i c steps y)
  show ?case
  proof
    assume a: "input = js ''[a,b]'' \<and> i = 2"
    have s: "skipWhitespace (js ''[a,b]'') 2 = 2" by (simp add: eval_strings)
    have l: "length (js ''[a,b]'') = 5" "js ''[a,b]'' ! 2 = 44" by (simp_all add: js_def)
    from 1(2) a have "loop (js ''[a,b]'') 2 Descendant
        (steps @ [\<lparr>combinator = c, part = fst (parseSimpleSelector (js ''[a,b]'') 2)\<rparr>]) = Some y"
      by (simp add: s l comma_stops_simple_selector)
    from 1(1)[OF this] show False by simp
  qed
qed

theorem selector_with_comma_in_brackets_never_compiles:
  "parseSelectorList (js ''[a,b]'') = None"
proof -
  have g: "splitSelectorGroups (js ''[a,b]'') = [js ''[a,b]'']"
    by (simp add: eval_strings eval_selector cong: eval_cong)
  have t: "trim (js ''[a,b]'') = js ''[a,b]''" by (simp add: eval_strings)
  have p: "parseSimpleSelector (js ''[a,b]'') 0
     = (\<lparr>partTag = None, partId = None, partClasses = [],
          partAttrs = [\<lparr>attrName = js ''a'', attrValue = None\<rparr>]\<rparr>, 2)"
    by (simp add: eval_strings eval_selector cong: eval_cong)
  have s: "skipWhitespace (js ''[a,b]'') 0 = 0" by (simp add: eval_strings)
  have l: "length (js ''[a,b]'') = 5" "js ''[a,b]'' ! 0 = 91" by (simp_all add: js_def)
  have "parseSelectorGroup (js ''[a,b]'')
      = selectorGroupLoop (js ''[a,b]'') 2 Descendant
          [\<lparr>combinator = Descendant, part = fst (parseSimpleSelector (js ''[a,b]'') 0)\<rparr>]"
    unfolding parseSelectorGroup_def
    by (subst selectorGroupLoop.simps) (simp add: s l p)
  moreover have "selectorGroupLoop (js ''[a,b]'') 2 Descendant
          [\<lparr>combinator = Descendant, part = fst (parseSimpleSelector (js ''[a,b]'') 0)\<rparr>] = None"
    using group_loop_stays_at_comma by (metis option.exhaust)
  ultimately have "parseSelectorGroup (js ''[a,b]'') = None" by simp
  moreover have "js ''[a,b]'' \<noteq> []" by (simp add: js_def)
  ultimately show ?thesis unfolding parseSelectorList_def g by (simp add: t)
qed

section \<open>The selector matcher\<close>

text \<open>\<^verbatim>\<open>s.split(/\s+/)\<close>: the pieces of \<open>s\<close> between its runs of white space.\<close>

function jsSplitSpaces :: "jsstring \<Rightarrow> jsstring list" where
  "jsSplitSpaces s =
     (if dropWhile (\<lambda>c. \<not> isJsSpace c) s = [] then [takeWhile (\<lambda>c. \<not> isJsSpace c) s]
      else takeWhile (\<lambda>c. \<not> isJsSpace c) s
           # jsSplitSpaces (dropWhile isJsSpace (dropWhile (\<lambda>c. \<not> isJsSpace c) s)))"
  by pat_completeness auto
termination
proof (relation "measure length", goal_cases)
  case 1
  show ?case by simp
next
  case (2 s)
  let ?r = "dropWhile (\<lambda>c. \<not> isJsSpace c) s"
  from 2 obtain c cs where r: "?r = c # cs" by (cases ?r) auto
  then have "isJsSpace c" using hd_dropWhile[of "\<lambda>c. \<not> isJsSpace c" s] by auto
  with r have "length (dropWhile isJsSpace ?r) \<le> length cs"
    by (simp add: length_dropWhile_le)
  moreover have "length ?r \<le> length s" by (rule length_dropWhile_le)
  ultimately show ?case using r by simp
qed

declare jsSplitSpaces.simps [simp del]

definition splitClassList :: "jsstring \<Rightarrow> jsstring list" where
  "splitClassList v = (if trim v = [] then [] else jsSplitSpaces (trim v))"

definition elementId :: "node \<Rightarrow> jsstring" where
  "elementId el = (case getAttribute el (js ''id'') of None \<Rightarrow> [] | Some v \<Rightarrow> v)"

definition className :: "node \<Rightarrow> jsstring" where
  "className el = (case getAttribute el (js ''class'') of None \<Rightarrow> [] | Some v \<Rightarrow> v)"

definition classList :: "node \<Rightarrow> jsstring list" where
  "classList el = splitClassList (className el)"

text \<open>The getter \<^verbatim>\<open>parentElement\<close>: the parent when it is an element.\<close>

definition parentElement :: "heap \<Rightarrow> nat \<Rightarrow> nat option" where
  "parentElement h a =
     (case parent (h ! a) of
        None \<Rightarrow> None
      | Some p \<Rightarrow> if nodeType (h ! p) = Element then Some p else None)"

definition matchesSelectorPart :: "node \<Rightarrow> SelectorPart \<Rightarrow> bool" where
  "matchesSelectorPart el p =
     (if truthyString (partTag p) \<and> partTag p \<noteq> Some (js ''*'') \<and> Some (tagName el) \<noteq> partTag p
      then False
      else if truthyString (partId p) \<and> Some (elementId el) \<noteq> partId p then False
      else if \<not> list_all (\<lambda>c. c \<in> set (classList el)) (partClasses p) then False
      else list_all
             (\<lambda>a. hasAttribute el (attrName a)
                  \<and> \<not> (attrValue a \<noteq> None \<and> getAttribute el (attrName a) \<noteq> attrValue a))
             (partAttrs p))"

text \<open>
  The inner loop of the descendant combinator,
  \<^verbatim>\<open>while (parent && !matchesSelectorPart(parent, target)) parent = parent.parentElement\<close>:
  the result is the value of \<^verbatim>\<open>parent\<close> after the loop. On a heap whose parent references
  run in a circle the loop does not end; that is the value \<open>None\<close> of the partial function.
\<close>

partial_function (option) ancestorLoop :: "heap \<Rightarrow> SelectorPart \<Rightarrow> nat option \<Rightarrow> nat option option" where
  "ancestorLoop h target p =
     (case p of
        None \<Rightarrow> Some None
      | Some a \<Rightarrow>
          if matchesSelectorPart (h ! a) target then Some (Some a)
          else ancestorLoop h target (parentElement h a))"

text \<open>\<^verbatim>\<open>current ? current.parentElement : null\<close>.\<close>

definition parentOf :: "heap \<Rightarrow> nat option \<Rightarrow> nat option" where
  "parentOf h current = (case current of None \<Rightarrow> None | Some c \<Rightarrow> parentElement h c)"

text \<open>The loop \<^verbatim>\<open>while (index > 0)\<close> of \<^verbatim>\<open>matchesSelectorChain\<close>, by recursion on the
  index.\<close>

fun chainLoop :: "heap \<Rightarrow> SelectorStep list \<Rightarrow> nat \<Rightarrow> nat option \<Rightarrow> bool option" where
  "chainLoop h steps 0 current = Some True"
| "chainLoop h steps (Suc k) current =
     (if combinator (steps ! Suc k) = Child then
        (case parentOf h current of
           None \<Rightarrow> Some False
         | Some p \<Rightarrow>
             if \<not> matchesSelectorPart (h ! p) (part (steps ! k)) then Some False
             else chainLoop h steps k (Some p))
      else
        (case ancestorLoop h (part (steps ! k)) (parentOf h current) of
           None \<Rightarrow> None
         | Some None \<Rightarrow> Some False
         | Some (Some p) \<Rightarrow> chainLoop h steps k (Some p)))"

definition matchesSelectorChain :: "heap \<Rightarrow> nat \<Rightarrow> SelectorStep list \<Rightarrow> bool option" where
  "matchesSelectorChain h element steps =
     (if steps = [] then Some False
      else if \<not> matchesSelectorPart (h ! element) (part (steps ! (length steps - 1)))
        then Some False
      else chainLoop h steps (length steps - 1) (Some element))"

subsection \<open>Chain matching, as the specification words it\<close>

text \<open>
  \<open>parentChain h a ancs\<close>: the ancestor elements of the node \<open>a\<close>, from its parent element
  upwards, are the list \<open>ancs\<close>. \<open>chainMatches\<close> reads a chain from its rightmost step
  (the list of steps is given reversed): the element has to match that step; then for a
  child combinator the nearest ancestor has to exist and match the next step to the left,
  and for a descendant combinator the walk moves to the first ancestor that matches it and
  goes on from there, with no return to a farther ancestor. A chain without steps matches
  nothing.
\<close>

fun parentChain :: "heap \<Rightarrow> nat \<Rightarrow> nat list \<Rightarrow> bool" where
  "parentChain h a [] = (parentElement h a = None)"
| "parentChain h a (p # ps) = (parentElement h a = Some p \<and> parentChain h p ps)"

fun walkLeft :: "heap \<Rightarrow> Combinator \<Rightarrow> nat list \<Rightarrow> SelectorStep list \<Rightarrow> bool" where
  "walkLeft h c ancs [] = True"
| "walkLeft h Child [] (s # left) = False"
| "walkLeft h Child (p # ancs) (s # left) =
     (matchesSelectorPart (h ! p) (part s) \<and> walkLeft h (combinator s) ancs left)"
| "walkLeft h Descendant ancs (s # left) =
     (case dropWhile (\<lambda>p. \<not> matchesSelectorPart (h ! p) (part s)) ancs of
        [] \<Rightarrow> False
      | p # upper \<Rightarrow> walkLeft h (combinator s) upper left)"

fun chainMatches :: "heap \<Rightarrow> nat \<Rightarrow> nat list \<Rightarrow> SelectorStep list \<Rightarrow> bool" where
  "chainMatches h el ancs [] = False"
| "chainMatches h el ancs (s # left) =
     (matchesSelectorPart (h ! el) (part s) \<and> walkLeft h (combinator s) ancs left)"

lemma ancestorLoop_None: "ancestorLoop h target None = Some None"
  by (subst ancestorLoop.simps) simp

lemma ancestorLoop_Some:
  "ancestorLoop h target (Some a) =
     (if matchesSelectorPart (h ! a) target then Some (Some a)
      else ancestorLoop h target (parentElement h a))"
  by (subst ancestorLoop.simps) simp

lemma ancestorLoop_chain:
  "parentChain h a ancs \<Longrightarrow>
   ancestorLoop h target (parentElement h a)
     = Some (case dropWhile (\<lambda>p. \<not> matchesSelectorPart (h ! p) target) ancs of
               [] \<Rightarrow> None | p # upper \<Rightarrow> Some p)"
proof (induction ancs arbitrary: a)
  case Nil
  then show ?case by (simp add: ancestorLoop_None)
next
  case (Cons p ps)
  then show ?case by (simp add: ancestorLoop_Some)
qed

lemma parentChain_dropWhile:
  "parentChain h a ancs \<Longrightarrow> dropWhile q ancs = p # upper \<Longrightarrow> parentChain h p upper"
proof (induction ancs arbitrary: a)
  case Nil
  then show ?case by simp
next
  case (Cons x xs)
  then show ?case by (cases "q x") auto
qed

lemma chainLoop_walkLeft:
  "k < length steps \<Longrightarrow> parentChain h cur ancs \<Longrightarrow>
   chainLoop h steps k (Some cur)
     = Some (walkLeft h (combinator (steps ! k)) ancs (rev (take k steps)))"
proof (induction k arbitrary: cur ancs)
  case 0
  then show ?case by simp
next
  case (Suc k)
  from Suc.prems(1) have k: "k < length steps" by simp
  have r: "rev (take (Suc k) steps) = steps ! k # rev (take k steps)"
    using k by (simp add: take_Suc_conv_app_nth)
  show ?case
  proof (cases "combinator (steps ! Suc k)")
    case Child
    show ?thesis
    proof (cases ancs)
      case Nil
      with Suc.prems(2) Child show ?thesis by (simp add: r parentOf_def)
    next
      case (Cons p ps)
      with Suc.prems(2) have p: "parentElement h cur = Some p" "parentChain h p ps" by simp_all
      from Suc.IH[OF k p(2)] p(1) Child Cons show ?thesis by (simp add: r parentOf_def)
    qed
  next
    case Descendant
    let ?d = "dropWhile (\<lambda>p. \<not> matchesSelectorPart (h ! p) (part (steps ! k))) ancs"
    have a: "ancestorLoop h (part (steps ! k)) (parentOf h (Some cur))
               = Some (case ?d of [] \<Rightarrow> None | p # upper \<Rightarrow> Some p)"
      using ancestorLoop_chain[OF Suc.prems(2)] by (simp add: parentOf_def)
    show ?thesis
    proof (cases ?d)
      case Nil
      with a Descendant show ?thesis by (simp add: r del: dropWhile_eq_Nil_conv)
    next
      case (Cons p upper)
      from parentChain_dropWhile[OF Suc.prems(2) Cons] have "parentChain h p upper" .
      from Suc.IH[OF k this] a Cons Descendant show ?thesis
        by (simp add: r del: dropWhile_eq_Cons_conv)
    qed
  qed
qed

lemma matchesSelectorChain_chainMatches:
  assumes "parentChain h el ancs"
  shows "matchesSelectorChain h el steps = Some (chainMatches h el ancs (rev steps))"
proof (cases "steps = []")
  case True
  then show ?thesis by (simp add: matchesSelectorChain_def)
next
  case False
  let ?n = "length steps - 1"
  from False have n: "?n < length steps" by simp
  from take_Suc_conv_app_nth[OF n] False have "steps = take ?n steps @ [steps ! ?n]" by simp
  then have "rev steps = rev (take ?n steps @ [steps ! ?n])" by simp
  then have r: "rev steps = steps ! ?n # rev (take ?n steps)" by simp
  show ?thesis
    unfolding matchesSelectorChain_def r using False chainLoop_walkLeft[OF n assms]
    by simp
qed

text \<open>
  Claim C7. For an element whose ancestor elements are \<open>ancs\<close>, \<^verbatim>\<open>matchesSelectorChain\<close>
  returns, and its result is the matching worded above, read from the rightmost step; in
  particular the chain without steps gives \<^verbatim>\<open>false\<close>.
\<close>

theorem chain_matching_walks_right_to_left:
  assumes "parentChain h el ancs"
  shows "matchesSelectorChain h el steps = Some (chainMatches h el ancs (rev steps))
     \<and> matchesSelectorChain h el [] = Some False"
  using matchesSelectorChain_chainMatches[OF assms]
  by (simp add: matchesSelectorChain_def)

text \<open>
  An example: the tree of \<^verbatim>\<open><div><p><em><p><span>\<close>, nested in this order, and steps that
  test a tag name. The chain \<^verbatim>\<open>div > p span\<close> does not match the \<^verbatim>\<open>span\<close>: its nearest \<^verbatim>\<open>p\<close>
  ancestor is not a child of a \<^verbatim>\<open>div\<close>, and the walk does not go back to try the farther
  \<^verbatim>\<open>p\<close>, which is one. The chain \<^verbatim>\<open>div p span\<close> matches.
\<close>

definition exampleElement :: "string \<Rightarrow> nat \<Rightarrow> nat list \<Rightarrow> node" where
  "exampleElement name p cs = \<lparr>nodeType = Element, parent = Some p, children = cs,
     tagName = js name, attributes = [], data = []\<rparr>"

definition exampleHeap :: heap where
  "exampleHeap =
     [\<lparr>nodeType = Document, parent = None, children = [1], tagName = [], attributes = [],
        data = []\<rparr>,
      exampleElement ''div'' 0 [2],
      exampleElement ''p'' 1 [3],
      exampleElement ''em'' 2 [4],
      exampleElement ''p'' 3 [5],
      exampleElement ''span'' 4 []]"

definition tagStep :: "Combinator \<Rightarrow> string \<Rightarrow> SelectorStep" where
  "tagStep c name = \<lparr>combinator = c,
     part = \<lparr>partTag = Some (js name), partId = None, partClasses = [], partAttrs = []\<rparr>\<rparr>"

lemmas eval_matcher = exampleHeap_def exampleElement_def tagStep_def parentElement_def
  matchesSelectorPart_def truthyString_def

theorem chain_matching_walks_right_to_left_witness:
  "parentChain exampleHeap 5 [4, 3, 2, 1]
   \<and> matchesSelectorChain exampleHeap 5
        [tagStep Descendant ''div'', tagStep Child ''p'', tagStep Descendant ''span'']
       = Some False
   \<and> matchesSelectorChain exampleHeap 5
        [tagStep Descendant ''div'', tagStep Descendant ''p'', tagStep Descendant ''span'']
       = Some True"
proof -
  have c: "parentChain exampleHeap 5 [4, 3, 2, 1]"
    by (simp add: eval_matcher)
  from chain_matching_walks_right_to_left[OF c,
      of "[tagStep Descendant ''div'', tagStep Child ''p'', tagStep Descendant ''span'']"]
  have 1: "matchesSelectorChain exampleHeap 5
        [tagStep Descendant ''div'', tagStep Child ''p'', tagStep Descendant ''span'']
       = Some False"
    by (simp add: eval_matcher js_def)
  from chain_matching_walks_right_to_left[OF c,
      of "[tagStep Descendant ''div'', tagStep Descendant ''p'', tagStep Descendant ''span'']"]
  have 2: "matchesSelectorChain exampleHeap 5
        [tagStep Descendant ''div'', tagStep Descendant ''p'', tagStep Descendant ''span'']
       = Some True"
    by (simp add: eval_matcher js_def)
  from c 1 2 show ?thesis by simp
qed

section \<open>Walking the tree\<close>

text \<open>
  The traversals keep an explicit stack, an array whose top is its last entry, and push the
  children of a node from the last to the first, so that the first child is popped next:
  \<^verbatim>\<open>for (let i = children.length - 1; i >= 0; i--) stack.push(children[i])\<close>.
\<close>

definition pushReversed :: "nat list \<Rightarrow> nat list \<Rightarrow> nat list" where
  "pushReversed stk cs = stk @ rev cs"

text \<open>
  The loop of the getter \<^verbatim>\<open>textContent\<close> of \<^verbatim>\<open>NodeBase\<close>. On a heap whose child references
  run in a circle it does not end; that is the value \<open>None\<close>. \<^verbatim>\<open>TextNode\<close> overrides the
  getter and returns its data.
\<close>

partial_function (option) textContentLoop :: "heap \<Rightarrow> nat list \<Rightarrow> jsstring \<Rightarrow> jsstring option" where
  "textContentLoop h stk out =
     (if stk = [] then Some out
      else if nodeType (h ! last stk) = Text
        then textContentLoop h (butlast stk) (out @ data (h ! last stk))
      else if children (h ! last stk) \<noteq> []
        then textContentLoop h (pushReversed (butlast stk) (children (h ! last stk))) out
      else textContentLoop h (butlast stk) out)"

definition textContent :: "heap \<Rightarrow> nat \<Rightarrow> jsstring option" where
  "textContent h a =
     (if nodeType (h ! a) = Text then Some (data (h ! a))
      else textContentLoop h (pushReversed [] (children (h ! a))) [])"

subsection \<open>The shape of a heap below a node\<close>

text \<open>
  A tree of references describes what the traversals see from a node: \<open>unfolds h t\<close> says
  that the root of \<open>t\<close> is allocated, that its children in the heap are the roots of the
  subtrees of \<open>t\<close>, in order, and the same below. Such a tree exists when no chain of child
  references from the node comes back to a node of the chain. \<open>preorder\<close> is the document
  order: a node, then the nodes of its subtrees from left to right.
\<close>

datatype tree = Tree nat "tree list"

fun root :: "tree \<Rightarrow> nat" where
  "root (Tree a ts) = a"

fun subtrees :: "tree \<Rightarrow> tree list" where
  "subtrees (Tree a ts) = ts"

fun unfolds :: "heap \<Rightarrow> tree \<Rightarrow> bool" where
  "unfolds h (Tree a ts) =
     (a < length h \<and> children (h ! a) = map root ts \<and> list_all (unfolds h) ts)"

fun preorder :: "tree \<Rightarrow> nat list" where
  "preorder (Tree a ts) = a # concat (map preorder ts)"

text \<open>The data of the text nodes among the references \<open>as\<close>, concatenated in the order of
  the list; and the invariant of the data model that a text node has no children.\<close>

definition textNodesOf :: "heap \<Rightarrow> nat list \<Rightarrow> jsstring" where
  "textNodesOf h as = concat (map (\<lambda>a. data (h ! a)) (filter (\<lambda>a. nodeType (h ! a) = Text) as))"

definition textLeaves :: "heap \<Rightarrow> tree \<Rightarrow> bool" where
  "textLeaves h t = list_all (\<lambda>a. nodeType (h ! a) = Text \<longrightarrow> children (h ! a) = []) (preorder t)"

lemma textNodesOf_append: "textNodesOf h (xs @ ys) = textNodesOf h xs @ textNodesOf h ys"
  by (simp add: textNodesOf_def)

lemma textContentLoop_forest:
  "list_all (unfolds h) ts \<Longrightarrow> list_all (textLeaves h) ts \<Longrightarrow>
   textContentLoop h (rev (map root ts)) out
     = Some (out @ textNodesOf h (concat (map preorder ts)))"
proof (induction "length (concat (map preorder ts))" arbitrary: ts out rule: less_induct)
  case less
  show ?case
  proof (cases ts)
    case Nil
    then show ?thesis by (subst textContentLoop.simps) (simp add: textNodesOf_def)
  next
    case (Cons t rest)
    obtain a cs where t: "t = Tree a cs" by (cases t)
    from less.prems Cons t have u: "children (h ! a) = map root cs" "list_all (unfolds h) cs"
      "list_all (unfolds h) rest" and l: "textLeaves h (Tree a cs)" "list_all (textLeaves h) rest"
      by simp_all
    have stk: "rev (map root ts) = rev (map root rest) @ [a]" using Cons t by simp
    show ?thesis
    proof (cases "nodeType (h ! a) = Text")
      case True
      with l(1) u(1) have "cs = []" by (simp add: textLeaves_def)
      have "length (concat (map preorder rest)) < length (concat (map preorder ts))"
        using Cons t by simp
      from less.hyps[OF this u(3) l(2)] True \<open>cs = []\<close> Cons t show ?thesis
        by (subst textContentLoop.simps) (simp add: textNodesOf_def)
    next
      case False
      have lc: "list_all (textLeaves h) cs"
        using l(1) by (auto simp: textLeaves_def list_all_iff)
      have sm: "length (concat (map preorder (cs @ rest))) < length (concat (map preorder ts))"
        using Cons t by simp
      have all: "list_all (unfolds h) (cs @ rest)" "list_all (textLeaves h) (cs @ rest)"
        using u lc l(2) by simp_all
      have tn: "textNodesOf h (concat (map preorder ts)) = textNodesOf h (concat (map preorder (cs @ rest)))"
        using Cons t False by (simp add: textNodesOf_def)
      show ?thesis
      proof (cases "cs = []")
        case True
        with less.hyps[OF sm all, of out] False u(1) stk tn show ?thesis
          by (subst textContentLoop.simps) simp
      next
        case ne: False
        have "pushReversed (rev (map root rest)) (map root cs) = rev (map root (cs @ rest))"
          by (simp add: pushReversed_def rev_map)
        with less.hyps[OF sm all, of out] False u(1) stk tn ne show ?thesis
          by (subst textContentLoop.simps) simp
      qed
    qed
  qed
qed

text \<open>
  Claim C8. For a node whose subtree has the shape \<open>t\<close>, with text nodes that are leaves,
  \<^verbatim>\<open>textContent\<close> returns, and the result is the data of the text nodes of the subtree,
  concatenated in document order. For a text node this is its own data.
\<close>

theorem textContent_is_text_in_document_order:
  assumes "unfolds h t" "textLeaves h t"
  shows "textContent h (root t) = Some (textNodesOf h (preorder t))"
proof -
  obtain a cs where t: "t = Tree a cs" by (cases t)
  show ?thesis
  proof (cases "nodeType (h ! a) = Text")
    case True
    with assms t have "cs = []" by (simp add: textLeaves_def)
    with True t show ?thesis by (simp add: textContent_def textNodesOf_def)
  next
    case False
    from assms t have u: "children (h ! a) = map root cs" "list_all (unfolds h) cs" by simp_all
    have lc: "list_all (textLeaves h) cs"
      using assms(2) t by (auto simp: textLeaves_def list_all_iff)
    from textContentLoop_forest[OF u(2) lc, of "[]"] False u(1) t show ?thesis
      by (simp add: textContent_def textNodesOf_def pushReversed_def rev_map)
  qed
qed

section \<open>Queries\<close>

text \<open>
  \<^verbatim>\<open>walkElements\<close> calls \<^verbatim>\<open>cb\<close> on every element it pops and stops when \<^verbatim>\<open>cb\<close> returns
  \<^verbatim>\<open>false\<close>. The callbacks of the source write to a variable of the caller (\<^verbatim>\<open>found\<close>,
  \<^verbatim>\<open>results\<close>); here a callback takes that variable and returns the flag with the new value,
  or \<open>None\<close> when it does not return.
\<close>

partial_function (option) walkLoop ::
    "heap \<Rightarrow> (nat \<Rightarrow> 's \<Rightarrow> (bool \<times> 's) option) \<Rightarrow> nat list \<Rightarrow> 's \<Rightarrow> 's option" where
  "walkLoop h cb stk s =
     (if stk = [] then Some s
      else if nodeType (h ! last stk) = Element then
        Option.bind (cb (last stk) s)
          (\<lambda>r. if \<not> fst r then Some (snd r)
               else walkLoop h cb (pushReversed (butlast stk) (children (h ! last stk))) (snd r))
      else if children (h ! last stk) \<noteq> []
        then walkLoop h cb (pushReversed (butlast stk) (children (h ! last stk))) s
      else walkLoop h cb (butlast stk) s)"

definition walkElements ::
    "heap \<Rightarrow> nat \<Rightarrow> bool \<Rightarrow> (nat \<Rightarrow> 's \<Rightarrow> (bool \<times> 's) option) \<Rightarrow> 's \<Rightarrow> 's option" where
  "walkElements h rt includeRoot cb s =
     walkLoop h cb (if includeRoot then [rt] else pushReversed [] (children (h ! rt))) s"

text \<open>The loop over the groups in the callbacks of the queries: the first group that
  matches ends it.\<close>

fun matchesAnyGroup :: "heap \<Rightarrow> nat \<Rightarrow> SelectorStep list list \<Rightarrow> bool option" where
  "matchesAnyGroup h el [] = Some False"
| "matchesAnyGroup h el (g # groups) =
     (case matchesSelectorChain h el g of
        None \<Rightarrow> None
      | Some True \<Rightarrow> Some True
      | Some False \<Rightarrow> matchesAnyGroup h el groups)"

definition querySelectorAll :: "heap \<Rightarrow> nat \<Rightarrow> jsstring \<Rightarrow> bool \<Rightarrow> nat list option" where
  "querySelectorAll h rt selector includeRoot =
     (case parseSelectorList selector of
        None \<Rightarrow> None
      | Some groups \<Rightarrow>
          walkElements h rt includeRoot
            (\<lambda>el results.
               case matchesAnyGroup h el groups of
                 None \<Rightarrow> None
               | Some m \<Rightarrow> Some (True, if m then results @ [el] else results))
            [])"

definition querySelectorOne :: "heap \<Rightarrow> nat \<Rightarrow> jsstring \<Rightarrow> bool \<Rightarrow> nat option option" where
  "querySelectorOne h rt selector includeRoot =
     (case parseSelectorList selector of
        None \<Rightarrow> None
      | Some groups \<Rightarrow>
          walkElements h rt includeRoot
            (\<lambda>el found.
               case matchesAnyGroup h el groups of
                 None \<Rightarrow> None
               | Some m \<Rightarrow> Some (if m then (False, Some el) else (True, found)))
            None)"

definition getElementById :: "heap \<Rightarrow> nat \<Rightarrow> jsstring \<Rightarrow> nat option option" where
  "getElementById h doc ident = querySelectorOne h doc (js ''#'' @ ident) False"

subsection \<open>What a walk visits\<close>

text \<open>\<open>visit cb es\<close> calls \<open>cb\<close> on the elements \<open>es\<close> in order, up to the first call that
  returns \<^verbatim>\<open>false\<close>. A walk from a node whose subtree has the shape \<open>t\<close> visits the elements
  of \<open>t\<close> in document order.\<close>

fun visit :: "(nat \<Rightarrow> 's \<Rightarrow> (bool \<times> 's) option) \<Rightarrow> nat list \<Rightarrow> 's \<Rightarrow> 's option" where
  "visit cb [] s = Some s"
| "visit cb (e # es) s =
     (case cb e s of
        None \<Rightarrow> None
      | Some r \<Rightarrow> if fst r then visit cb es (snd r) else Some (snd r))"

definition elementsOf :: "heap \<Rightarrow> nat list \<Rightarrow> nat list" where
  "elementsOf h as = filter (\<lambda>a. nodeType (h ! a) = Element) as"

lemma walkLoop_forest:
  "list_all (unfolds h) ts \<Longrightarrow>
   walkLoop h cb (rev (map root ts)) s = visit cb (elementsOf h (concat (map preorder ts))) s"
proof (induction "length (concat (map preorder ts))" arbitrary: ts s rule: less_induct)
  case less
  show ?case
  proof (cases ts)
    case Nil
    then show ?thesis by (subst walkLoop.simps) (simp add: elementsOf_def)
  next
    case (Cons t rest)
    obtain a cs where t: "t = Tree a cs" by (cases t)
    from less.prems Cons t have u: "children (h ! a) = map root cs" "list_all (unfolds h) cs"
      "list_all (unfolds h) rest"
      by simp_all
    have stk: "rev (map root ts) = rev (map root rest) @ [a]" using Cons t by simp
    have sm: "length (concat (map preorder (cs @ rest))) < length (concat (map preorder ts))"
      using Cons t by simp
    have all: "list_all (unfolds h) (cs @ rest)" using u by simp
    have push: "pushReversed (rev (map root rest)) (map root cs) = rev (map root (cs @ rest))"
      by (simp add: pushReversed_def rev_map)
    note ih = less.hyps[OF sm all]
    show ?thesis
    proof (cases "nodeType (h ! a) = Element")
      case True
      have el: "elementsOf h (concat (map preorder ts))
                  = a # elementsOf h (concat (map preorder (cs @ rest)))"
        using Cons t True by (simp add: elementsOf_def)
      show ?thesis
      proof (cases "cb a s")
        case None
        with True stk u(1) el show ?thesis by (subst walkLoop.simps) simp
      next
        case (Some r)
        with True stk u(1) el push ih[of "snd r"] show ?thesis
          by (subst walkLoop.simps) simp
      qed
    next
      case False
      have el: "elementsOf h (concat (map preorder ts))
                  = elementsOf h (concat (map preorder (cs @ rest)))"
        using Cons t False by (simp add: elementsOf_def)
      show ?thesis
      proof (cases "cs = []")
        case True
        with False stk u(1) el ih[of s] show ?thesis by (subst walkLoop.simps) simp
      next
        case ne: False
        with False stk u(1) el push ih[of s] show ?thesis by (subst walkLoop.simps) simp
      qed
    qed
  qed
qed

lemma walkElements_below:
  assumes "unfolds h t"
  shows "walkElements h (root t) False cb s
           = visit cb (elementsOf h (concat (map preorder (subtrees t)))) s"
proof -
  obtain a cs where t: "t = Tree a cs" by (cases t)
  with assms have u: "children (h ! a) = map root cs" "list_all (unfolds h) cs" by simp_all
  from walkLoop_forest[OF u(2), of cb s] u(1) t show ?thesis
    by (simp add: walkElements_def pushReversed_def rev_map)
qed

lemma walkElements_with_root:
  assumes "unfolds h t"
  shows "walkElements h (root t) True cb s = visit cb (elementsOf h (preorder t)) s"
proof -
  from assms have "list_all (unfolds h) [t]" by simp
  from walkLoop_forest[OF this, of cb s] show ?thesis by (simp add: walkElements_def)
qed

subsection \<open>An example with text\<close>

text \<open>The heap that \<^verbatim>\<open>parse\<close> returns for \<^verbatim>\<open><p>a<b>c</b>d\<close>, and its shape.\<close>

definition exampleText :: "string \<Rightarrow> nat \<Rightarrow> node" where
  "exampleText t p = \<lparr>nodeType = Text, parent = Some p, children = [], tagName = [],
     attributes = [], data = js t\<rparr>"

definition exampleTextHeap :: heap where
  "exampleTextHeap =
     [\<lparr>nodeType = Document, parent = None, children = [1], tagName = [], attributes = [],
        data = []\<rparr>,
      exampleElement ''p'' 0 [2, 3, 5],
      exampleText ''a'' 1,
      exampleElement ''b'' 1 [4],
      exampleText ''c'' 3,
      exampleText ''d'' 1]"

definition exampleTextTree :: tree where
  "exampleTextTree = Tree 0 [Tree 1 [Tree 2 [], Tree 3 [Tree 4 []], Tree 5 []]]"

lemma exampleTextHeap_is_parsed:
  "parse (js ''<p>a<b>c</b>d'') = Inr exampleTextHeap"
  by (simp add: eval_strings eval_tables eval_entities eval_nodes eval_parse exampleTextHeap_def
      exampleElement_def exampleText_def cong: eval_cong)

text \<open>The text content of the document is \<^verbatim>\<open>acd\<close>; that of the text node 4 is its data.\<close>

theorem textContent_is_text_in_document_order_witness:
  "unfolds exampleTextHeap exampleTextTree \<and> textLeaves exampleTextHeap exampleTextTree
   \<and> textContent exampleTextHeap 0 = Some (js ''acd'')
   \<and> textContent exampleTextHeap 4 = Some (js ''c'')"
proof -
  have u: "unfolds exampleTextHeap exampleTextTree"
    by (simp add: exampleTextTree_def exampleTextHeap_def exampleElement_def exampleText_def)
  have l: "textLeaves exampleTextHeap exampleTextTree"
    by (simp add: textLeaves_def exampleTextTree_def exampleTextHeap_def exampleElement_def
        exampleText_def)
  have u4: "unfolds exampleTextHeap (Tree 4 [])"
    by (simp add: exampleTextHeap_def exampleText_def)
  have l4: "textLeaves exampleTextHeap (Tree 4 [])"
    by (simp add: textLeaves_def exampleTextHeap_def exampleText_def)
  from textContent_is_text_in_document_order[OF u l]
  have a: "textContent exampleTextHeap 0 = Some (js ''acd'')"
    by (simp add: textNodesOf_def exampleTextTree_def exampleTextHeap_def exampleElement_def
        exampleText_def js_def)
  from textContent_is_text_in_document_order[OF u4 l4]
  have b: "textContent exampleTextHeap 4 = Some (js ''c'')"
    by (simp add: textNodesOf_def exampleTextHeap_def exampleText_def js_def)
  from u l a b show ?thesis by simp
qed

subsection \<open>The empty identifier\<close>

lemma hash_compiles_to_an_empty_step:
  "parseSelectorList (js ''#'')
     = Some [[\<lparr>combinator = Descendant,
                part = \<lparr>partTag = None, partId = None, partClasses = [], partAttrs = []\<rparr>\<rparr>]]"
  by (simp add: eval_strings eval_selector cong: eval_cong)

lemma empty_part_matches:
  "matchesSelectorPart el \<lparr>partTag = None, partId = None, partClasses = [], partAttrs = []\<rparr>"
  by (simp add: matchesSelectorPart_def truthyString_def)

lemma empty_step_matches:
  "matchesAnyGroup h el
     [[\<lparr>combinator = Descendant,
        part = \<lparr>partTag = None, partId = None, partClasses = [], partAttrs = []\<rparr>\<rparr>]]
   = Some True"
  by (simp add: matchesSelectorChain_def empty_part_matches)

text \<open>
  Claim C10. \<^verbatim>\<open>getElementById("")\<close> is \<^verbatim>\<open>querySelector("#")\<close>; the selector \<open>#\<close> compiles to one
  group of one step without constraints (lemma \<open>hash_compiles_to_an_empty_step\<close>), which
  every element matches. On a document whose tree holds an element, the result is the
  first element in document order, not \<^verbatim>\<open>null\<close>.
\<close>

theorem getElementById_of_empty_id_returns_first_element:
  assumes "unfolds h t"
    and "elementsOf h (concat (map preorder (subtrees t))) = e # es"
  shows "getElementById h (root t) [] = Some (Some e)"
  using assms(2)
  by (simp add: getElementById_def querySelectorOne_def hash_compiles_to_an_empty_step
      walkElements_below[OF assms(1)] empty_step_matches del: matchesAnyGroup.simps)

text \<open>The shape of the example heap of the matcher; its first element is the node 1.\<close>

definition exampleTree :: tree where
  "exampleTree = Tree 0 [Tree 1 [Tree 2 [Tree 3 [Tree 4 [Tree 5 []]]]]]"

lemma exampleTree_unfolds: "unfolds exampleHeap exampleTree"
  by (simp add: exampleTree_def exampleHeap_def exampleElement_def)

theorem getElementById_of_empty_id_returns_first_element_witness:
  "unfolds exampleHeap exampleTree
   \<and> elementsOf exampleHeap (concat (map preorder (subtrees exampleTree))) = [1, 2, 3, 4, 5]
   \<and> getElementById exampleHeap 0 [] = Some (Some 1)"
proof -
  have e: "elementsOf exampleHeap (concat (map preorder (subtrees exampleTree))) = 1 # [2, 3, 4, 5]"
    by (simp add: elementsOf_def exampleTree_def exampleHeap_def exampleElement_def)
  from getElementById_of_empty_id_returns_first_element[OF exampleTree_unfolds e]
  have "getElementById exampleHeap 0 [] = Some (Some 1)" by (simp add: exampleTree_def)
  with exampleTree_unfolds e show ?thesis by simp
qed

subsection \<open>Selector lists\<close>

text \<open>
  Claim C6 says that \<^verbatim>\<open>querySelectorAll\<close> returns, for every tree and every selector list,
  the elements that match a group. On the selector \<^verbatim>\<open>[a,b]\<close> it does not return, whatever the
  tree: the compiler loops at the comma (theorem
  \<open>selector_with_comma_in_brackets_never_compiles\<close>).
\<close>

theorem querySelectorAll_does_not_return_on_comma_in_brackets:
  "querySelectorAll h rt (js ''[a,b]'') includeRoot = None"
  by (simp add: querySelectorAll_def selector_with_comma_in_brackets_never_compiles)

text \<open>
  Where the compiler returns, the queries do what the claim says: on a tree of the shape
  \<open>t\<close> whose elements have finite chains of ancestors, \<^verbatim>\<open>querySelectorAll\<close> returns the
  elements below the root that match a group, in document order, each once (it is a
  sublist of the elements in document order), and \<^verbatim>\<open>querySelector\<close> returns the first of
  them or \<^verbatim>\<open>null\<close>.
\<close>

lemma matchesAnyGroup_exists:
  assumes "parentChain h el ancs"
  shows "matchesAnyGroup h el groups
           = Some (\<exists>g\<in>set groups. chainMatches h el ancs (rev g))"
proof (induction groups)
  case Nil
  show ?case by simp
next
  case (Cons g groups)
  then show ?case
    by (cases "chainMatches h el ancs (rev g)")
      (simp_all add: matchesSelectorChain_chainMatches[OF assms])
qed

lemma visit_collect:
  assumes "\<forall>e\<in>set es. \<exists>m. test e = Some m"
  shows "visit (\<lambda>el results. case test el of None \<Rightarrow> None
                  | Some m \<Rightarrow> Some (True, if m then results @ [el] else results)) es acc
           = Some (acc @ filter (\<lambda>e. test e = Some True) es)"
  using assms
proof (induction es arbitrary: acc)
  case Nil
  then show ?case by simp
next
  case (Cons e es)
  then obtain m where m: "test e = Some m" by auto
  with Cons show ?case by (cases m) auto
qed

lemma visit_first:
  assumes "\<forall>e\<in>set es. \<exists>m. test e = Some m"
  shows "visit (\<lambda>el found. case test el of None \<Rightarrow> None
                  | Some m \<Rightarrow> Some (if m then (False, Some el) else (True, found))) es acc
           = Some (case filter (\<lambda>e. test e = Some True) es of [] \<Rightarrow> acc | e # others \<Rightarrow> Some e)"
  using assms
proof (induction es arbitrary: acc)
  case Nil
  then show ?case by simp
next
  case (Cons e es)
  then obtain m where m: "test e = Some m" by auto
  with Cons show ?case by (cases m) auto
qed

lemma queries_return_the_matching_elements:
  assumes "parseSelectorList selector = Some groups" "unfolds h t"
    and "\<forall>e\<in>set (elementsOf h (concat (map preorder (subtrees t)))). \<exists>ancs. parentChain h e ancs"
  shows "querySelectorAll h (root t) selector False
           = Some (filter (\<lambda>e. matchesAnyGroup h e groups = Some True)
                     (elementsOf h (concat (map preorder (subtrees t)))))"
    and "querySelectorOne h (root t) selector False
           = Some (case filter (\<lambda>e. matchesAnyGroup h e groups = Some True)
                          (elementsOf h (concat (map preorder (subtrees t)))) of
                     [] \<Rightarrow> None | e # others \<Rightarrow> Some e)"
proof -
  have d: "\<forall>e\<in>set (elementsOf h (concat (map preorder (subtrees t)))).
             \<exists>m. matchesAnyGroup h e groups = Some m"
    using assms(3) matchesAnyGroup_exists by blast
  show "querySelectorAll h (root t) selector False
           = Some (filter (\<lambda>e. matchesAnyGroup h e groups = Some True)
                     (elementsOf h (concat (map preorder (subtrees t)))))"
    using visit_collect[OF d, of "[]"]
    by (simp add: querySelectorAll_def assms(1) walkElements_below[OF assms(2)])
  show "querySelectorOne h (root t) selector False
           = Some (case filter (\<lambda>e. matchesAnyGroup h e groups = Some True)
                          (elementsOf h (concat (map preorder (subtrees t)))) of
                     [] \<Rightarrow> None | e # others \<Rightarrow> Some e)"
    using visit_first[OF d, of None]
    by (simp add: querySelectorOne_def assms(1) walkElements_below[OF assms(2)])
qed

end
